theory Spec2Isabelle
  imports Complex_Main "HOL-Library.List_Lexorder" "HOL-Library.Sublist"
begin

section \<open>Text, characters and the Unicode tables\<close>

text \<open>
  A Python \<^verbatim>\<open>str\<close> is a sequence of Unicode code points. A text is modelled as a list
  of code points (\<open>int\<close>), so that \<open>length\<close> counts what Python's \<^verbatim>\<open>len\<close> counts and
  the characters beyond ASCII that the \<^verbatim>\<open>re\<close> module treats specially can be written.
  \<open>ustr\<close> reads an ASCII literal as such a text.
\<close>

type_synonym ustring = "int list"

definition ustr :: "string \<Rightarrow> ustring" where
  "ustr s = map of_char s"

text \<open>
  The tables of the Unicode database behind \<^verbatim>\<open>\d\<close>, \<^verbatim>\<open>\w\<close>, \<^verbatim>\<open>float\<close> and
  \<^verbatim>\<open>str.upper\<close> belong to the Python runtime, not to the repository, and change with
  its version: they are a parameter. The definitions below consult them for code points
  from 128 on only; the ASCII part is fixed here.
\<close>

record ucd =
  ucd_decimal :: "int \<Rightarrow> nat option"  \<comment> \<open>value of a decimal digit (category Nd)\<close>
  ucd_alnum :: "int \<Rightarrow> bool"  \<comment> \<open>\<^verbatim>\<open>str.isalnum\<close>\<close>
  ucd_upper :: "int \<Rightarrow> int list"  \<comment> \<open>full upper-case mapping of one code point\<close>

text \<open>The table with nothing beyond ASCII: enough to run the parsers on ASCII texts.\<close>

definition ucd_ascii :: ucd where
  "ucd_ascii = \<lparr>ucd_decimal = (\<lambda>c. None), ucd_alnum = (\<lambda>c. False), ucd_upper = (\<lambda>c. [c])\<rparr>"

text \<open>\<^verbatim>\<open>\s\<close> and \<^verbatim>\<open>str.isspace\<close>: the white space of Unicode, a short fixed list.\<close>

definition is_space :: "int \<Rightarrow> bool" where
  "is_space c \<longleftrightarrow>
     (9 \<le> c \<and> c \<le> 13) \<or> (28 \<le> c \<and> c \<le> 32) \<or> c = 133 \<or> c = 160 \<or> c = 5760 \<or>
     (8192 \<le> c \<and> c \<le> 8202) \<or> c = 8232 \<or> c = 8233 \<or> c = 8239 \<or> c = 8287 \<or> c = 12288"

definition is_AZ :: "int \<Rightarrow> bool" where
  "is_AZ c \<longleftrightarrow> 65 \<le> c \<and> c \<le> 90"

definition is_az :: "int \<Rightarrow> bool" where
  "is_az c \<longleftrightarrow> 97 \<le> c \<and> c \<le> 122"

definition is_09 :: "int \<Rightarrow> bool" where
  "is_09 c \<longleftrightarrow> 48 \<le> c \<and> c \<le> 57"

text \<open>\<^verbatim>\<open>\d\<close>: a decimal digit of any script. No decimal digit is white space.\<close>

definition is_digit :: "ucd \<Rightarrow> int \<Rightarrow> bool" where
  "is_digit db c \<longleftrightarrow>
     (if c < 128 then is_09 c else \<not> is_space c \<and> ucd_decimal db c \<noteq> None)"

text \<open>\<^verbatim>\<open>\w\<close>: alphanumeric or the underscore. No word character is white space.\<close>

definition is_word :: "ucd \<Rightarrow> int \<Rightarrow> bool" where
  "is_word db c \<longleftrightarrow>
     (if c < 128 then is_AZ c \<or> is_az c \<or> is_09 c \<or> c = 95
      else \<not> is_space c \<and> (ucd_alnum db c \<or> ucd_decimal db c \<noteq> None))"

text \<open>
  \<^verbatim>\<open>re.IGNORECASE\<close> on an ASCII letter of a pattern: the letter in either case, and
  the four code points the \<^verbatim>\<open>re\<close> module folds onto ASCII letters: U+0130 and U+0131
  onto i, U+017F onto s, U+212A (the Kelvin sign) onto k.
\<close>

definition ci_chr :: "int \<Rightarrow> int \<Rightarrow> bool" where
  "ci_chr p c \<longleftrightarrow>
     c = p \<or> (is_AZ p \<and> c = p + 32) \<or> (is_az p \<and> c = p - 32) \<or>
     ((p = 73 \<or> p = 105) \<and> (c = 304 \<or> c = 305)) \<or>
     ((p = 83 \<or> p = 115) \<and> c = 383) \<or>
     ((p = 75 \<or> p = 107) \<and> c = 8490)"

text \<open>A class holding \<^verbatim>\<open>A-Z\<close> (or \<^verbatim>\<open>a-z\<close>) under \<^verbatim>\<open>re.IGNORECASE\<close>.\<close>

definition ci_letter :: "int \<Rightarrow> bool" where
  "ci_letter c \<longleftrightarrow> is_AZ c \<or> is_az c \<or> c = 304 \<or> c = 305 \<or> c = 383 \<or> c = 8490"

section \<open>A backtracking matcher for the patterns of the program\<close>

text \<open>
  The patterns of the program use: single characters and classes, counted repetition of a
  class (greedy, or lazy with \<^verbatim>\<open>?\<close>), sequence, alternation, \<^verbatim>\<open>^\<close> (without
  \<^verbatim>\<open>re.MULTILINE\<close>: the start of the string), \<^verbatim>\<open>\b\<close> and negative lookahead.
\<close>

datatype regex =
    Chr "int \<Rightarrow> bool"
  | Rep "int \<Rightarrow> bool" nat "nat option" bool
  | Seq regex regex
  | Alt regex regex
  | Eps
  | Bol
  | Wordb "int \<Rightarrow> bool"
  | NegLook regex

text \<open>
  A position in the string being searched: the characters before it, nearest first, and
  the characters from it on.
\<close>

type_synonym cursor = "int list \<times> int list"

definition adv :: "nat \<Rightarrow> cursor \<Rightarrow> cursor" where
  "adv k c = (rev (take k (snd c)) @ fst c, drop k (snd c))"

definition c_pos :: "cursor \<Rightarrow> nat" where
  "c_pos c = length (fst c)"

text \<open>The text between two positions of one string.\<close>

definition between :: "cursor \<Rightarrow> cursor \<Rightarrow> ustring" where
  "between c c' = take (c_pos c' - c_pos c) (snd c)"

definition at_wordb :: "(int \<Rightarrow> bool) \<Rightarrow> cursor \<Rightarrow> bool" where
  "at_wordb w c \<longleftrightarrow>
     (case fst c of [] \<Rightarrow> False | b # _ \<Rightarrow> w b) \<noteq> (case snd c of [] \<Rightarrow> False | x # _ \<Rightarrow> w x)"

text \<open>
  The repetition counts a counted repetition tries, in the order it tries them: longest
  first when greedy, shortest first when lazy.
\<close>

definition rep_counts :: "(int \<Rightarrow> bool) \<Rightarrow> nat \<Rightarrow> nat option \<Rightarrow> bool \<Rightarrow> ustring \<Rightarrow> nat list" where
  "rep_counts p lo hi greedy xs =
     (let k = length (takeWhile p xs);
          top = (case hi of None \<Rightarrow> k | Some h \<Rightarrow> min h k)
      in if greedy then rev [lo..<Suc top] else [lo..<Suc top])"

text \<open>
  All ways a pattern matches from a position, as the positions where the match ends, in
  the order a backtracking matcher finds them. The head is the match \<^verbatim>\<open>re\<close> reports.
\<close>

fun rmatch :: "regex \<Rightarrow> cursor \<Rightarrow> cursor list" where
  "rmatch (Chr p) c =
     (case snd c of [] \<Rightarrow> [] | x # xs \<Rightarrow> if p x then [(x # fst c, xs)] else [])"
| "rmatch (Rep p lo hi greedy) c = map (\<lambda>k. adv k c) (rep_counts p lo hi greedy (snd c))"
| "rmatch (Seq a b) c = concat (map (rmatch b) (rmatch a c))"
| "rmatch (Alt a b) c = rmatch a c @ rmatch b c"
| "rmatch Eps c = [c]"
| "rmatch Bol c = (if fst c = [] then [c] else [])"
| "rmatch (Wordb w) c = (if at_wordb w c then [c] else [])"
| "rmatch (NegLook r) c = (if rmatch r c = [] then [c] else [])"

text \<open>
  A pattern with its capture group marked: what precedes group 1, group 1, what follows.
  A pattern without a group is \<open>plain r\<close>, whose group 1 is the whole match.
\<close>

datatype pattern = Pat regex regex regex

definition plain :: "regex \<Rightarrow> pattern" where
  "plain r = Pat Eps r Eps"

record rematch =
  m_start :: cursor
  m_end :: cursor
  m_group1 :: ustring

definition m_group0 :: "rematch \<Rightarrow> ustring" where
  "m_group0 m = between (m_start m) (m_end m)"

fun pmatch :: "pattern \<Rightarrow> cursor \<Rightarrow> rematch list" where
  "pmatch (Pat pre grp post) c =
     concat (map (\<lambda>c1. concat (map (\<lambda>c2.
        map (\<lambda>c3. \<lparr>m_start = c, m_end = c3, m_group1 = between c1 c2\<rparr>) (rmatch post c2))
       (rmatch grp c1))) (rmatch pre c))"

text \<open>\<^verbatim>\<open>re.search\<close>: the first match at the leftmost position that has one.\<close>

fun search_from :: "pattern \<Rightarrow> int list \<Rightarrow> int list \<Rightarrow> rematch option" where
  "search_from p bef [] = (case pmatch p (bef, []) of [] \<Rightarrow> None | m # _ \<Rightarrow> Some m)"
| "search_from p bef (x # xs) =
     (case pmatch p (bef, x # xs) of [] \<Rightarrow> search_from p (x # bef) xs | m # _ \<Rightarrow> Some m)"

definition search :: "pattern \<Rightarrow> ustring \<Rightarrow> rematch option" where
  "search p text = search_from p [] text"


text \<open>
  \<^verbatim>\<open>re.finditer\<close>: the matches from left to right, each search starting where the match
  before ended. No pattern of the program matches the empty string; should a match be
  empty the iteration stops here (Python would go on behind it).
\<close>

function finditer_from :: "pattern \<Rightarrow> int list \<Rightarrow> int list \<Rightarrow> rematch list" where
  "finditer_from p bef rest =
     (case search_from p bef rest of
        None \<Rightarrow> []
      | Some m \<Rightarrow>
          m # (if length (snd (m_end m)) < length rest
               then finditer_from p (fst (m_end m)) (snd (m_end m)) else []))"
  by pat_completeness auto
termination
  by (relation "measure (\<lambda>(p, bef, rest). length rest)") (auto simp: case_prod_beta)

declare finditer_from.simps [simp del]

definition finditer :: "pattern \<Rightarrow> ustring \<Rightarrow> rematch list" where
  "finditer p text = finditer_from p [] text"

text \<open>
  \<^verbatim>\<open>re.findall\<close>: the strings of the matches, group 1 when the pattern has a group and
  the whole match when it has none.
\<close>

definition find_all :: "pattern \<Rightarrow> ustring \<Rightarrow> ustring list" where
  "find_all p text = map m_group1 (finditer p text)"

text \<open>A sequence of patterns, and a literal, matched as it is or under \<^verbatim>\<open>re.IGNORECASE\<close>.\<close>

definition seqs :: "regex list \<Rightarrow> regex" where
  "seqs rs = foldr Seq rs Eps"

definition lit :: "string \<Rightarrow> regex" where
  "lit s = seqs (map (\<lambda>p. Chr (\<lambda>c. c = of_char p)) s)"

definition lit_ci :: "string \<Rightarrow> regex" where
  "lit_ci s = seqs (map (\<lambda>p. Chr (ci_chr (of_char p))) s)"

section \<open>Strings, numbers and errors of the Python runtime\<close>

text \<open>
  \<^verbatim>\<open>s[lo:hi]\<close> for bounds that are not negative, the only ones the program computes
  (it clamps the lower bound with \<^verbatim>\<open>max(0, ...)\<close>); an upper bound past the end is the end.
\<close>

definition py_slice :: "ustring \<Rightarrow> int \<Rightarrow> int \<Rightarrow> ustring" where
  "py_slice s lo hi = drop (nat lo) (take (nat hi) s)"

text \<open>\<^verbatim>\<open>s.find(c)\<close>: the lowest index where \<open>c\<close> occurs in \<open>s\<close>, or -1.\<close>

fun py_find_from :: "ustring \<Rightarrow> ustring \<Rightarrow> int \<Rightarrow> int" where
  "py_find_from [] c i = (if c = [] then i else - 1)"
| "py_find_from (x # xs) c i = (if prefix c (x # xs) then i else py_find_from xs c (i + 1))"

definition py_find :: "ustring \<Rightarrow> ustring \<Rightarrow> int" where
  "py_find s c = py_find_from s c 0"

text \<open>\<^verbatim>\<open>s.replace(ch, "")\<close> for a single character \<open>ch\<close>.\<close>

definition py_remove :: "int \<Rightarrow> ustring \<Rightarrow> ustring" where
  "py_remove ch s = filter (\<lambda>c. c \<noteq> ch) s"

definition py_strip :: "ustring \<Rightarrow> ustring" where
  "py_strip s = rev (dropWhile is_space (rev (dropWhile is_space s)))"

text \<open>\<^verbatim>\<open>s.split()\<close>: the maximal runs of characters that are not white space.\<close>

fun split_acc :: "ustring \<Rightarrow> ustring \<Rightarrow> ustring list" where
  "split_acc w [] = (if w = [] then [] else [w])"
| "split_acc w (x # xs) =
     (if is_space x then (if w = [] then split_acc [] xs else w # split_acc [] xs)
      else split_acc (w @ [x]) xs)"

definition py_split :: "ustring \<Rightarrow> ustring list" where
  "py_split s = split_acc [] s"

text \<open>\<^verbatim>\<open>sep.join(xs)\<close>\<close>

fun py_join :: "ustring \<Rightarrow> ustring list \<Rightarrow> ustring" where
  "py_join sep [] = []"
| "py_join sep [x] = x"
| "py_join sep (x # y # ys) = x @ sep @ py_join sep (y # ys)"

text \<open>\<^verbatim>\<open>s.upper()\<close>: every character replaced by its upper-case mapping.\<close>

definition upper_chr :: "ucd \<Rightarrow> int \<Rightarrow> ustring" where
  "upper_chr db c = (if c < 128 then (if is_az c then [c - 32] else [c]) else ucd_upper db c)"

definition py_upper :: "ucd \<Rightarrow> ustring \<Rightarrow> ustring" where
  "py_upper db s = concat (map (upper_chr db) s)"

text \<open>
  A Python \<^verbatim>\<open>float\<close> is an IEEE 754 binary64 number. The program makes floats from
  strings of digits and dots, adds them and formats them: no negative number and no NaN
  arises. A float is modelled by its exact value, a rational, or infinity; conversion and
  addition round to the nearest binary64 number, ties to even.
\<close>

datatype pyfloat = Fin rat | PInf

function bit_length :: "int \<Rightarrow> nat" where
  "bit_length n = (if n \<le> 0 then 0 else Suc (bit_length (n div 2)))"
  by pat_completeness auto
termination
  by (relation "measure nat") auto

declare bit_length.simps [simp del]

text \<open>For \<open>0 < q\<close>, the exponent \<open>e\<close> with \<open>2 ^ e \<le> q < 2 ^ (e + 1)\<close>.\<close>

definition floor_log2 :: "rat \<Rightarrow> int" where
  "floor_log2 q =
     (let (a, b) = quotient_of q;
          k = int (bit_length a) - int (bit_length b)
      in if power_int 2 k \<le> q then k else k - 1)"

definition round_half_even :: "rat \<Rightarrow> int" where
  "round_half_even x =
     (let f = \<lfloor>x\<rfloor>; d = x - of_int f
      in if d < 1 / 2 then f else if 1 / 2 < d then f + 1 else if even f then f else f + 1)"

definition round_double :: "rat \<Rightarrow> pyfloat" where
  "round_double q =
     (if q \<le> 0 then Fin 0
      else let e = max (floor_log2 q) (- 1022);
               quantum = power_int 2 (e - 52);
               r = of_int (round_half_even (q / quantum)) * quantum
           in if 2 ^ 1024 \<le> r then PInf else Fin r)"

definition fadd :: "pyfloat \<Rightarrow> pyfloat \<Rightarrow> pyfloat" where
  "fadd x y = (case (x, y) of (Fin a, Fin b) \<Rightarrow> round_double (a + b) | _ \<Rightarrow> PInf)"

definition fpositive :: "pyfloat \<Rightarrow> bool" where
  "fpositive x = (case x of Fin a \<Rightarrow> 0 < a | PInf \<Rightarrow> True)"

definition digit_value :: "ucd \<Rightarrow> int \<Rightarrow> int" where
  "digit_value db c =
     (if c < 128 then c - 48 else case ucd_decimal db c of Some v \<Rightarrow> int v | None \<Rightarrow> 0)"

definition digits_value :: "ucd \<Rightarrow> ustring \<Rightarrow> int" where
  "digits_value db s = foldl (\<lambda>n c. 10 * n + digit_value db c) 0 s"

text \<open>
  \<^verbatim>\<open>float(s)\<close> for a string of digits and dots, the strings the program passes it:
  digits with at most one dot and at least one digit are a number, anything else raises
  \<^verbatim>\<open>ValueError\<close> (\<open>None\<close>).
\<close>

definition py_float :: "ucd \<Rightarrow> ustring \<Rightarrow> pyfloat option" where
  "py_float db s =
     (let ip = takeWhile (\<lambda>c. c \<noteq> 46) s;
          fp = drop 1 (dropWhile (\<lambda>c. c \<noteq> 46) s)
      in if ip @ fp = [] \<or> \<not> list_all (is_digit db) (ip @ fp) then None
         else Some (round_double (of_int (digits_value db (ip @ fp)) / 10 ^ length fp)))"

text \<open>The decimal digits of a number that is not negative.\<close>

function digits10 :: "int \<Rightarrow> ustring" where
  "digits10 n = (if n < 10 then [48 + n] else digits10 (n div 10) @ [48 + n mod 10])"
  by pat_completeness auto
termination
  by (relation "measure nat") auto

declare digits10.simps [simp del]

text \<open>
  \<^verbatim>\<open>f"{x:.Nf}"\<close>: the exact value rounded to \<open>N\<close> fractional digits, ties to even;
  infinity prints as \<^verbatim>\<open>inf\<close>.
\<close>

definition fmt_fixed :: "nat \<Rightarrow> pyfloat \<Rightarrow> ustring" where
  "fmt_fixed nd x =
     (case x of
        PInf \<Rightarrow> ustr ''inf''
      | Fin q \<Rightarrow>
          let n = round_half_even (q * 10 ^ nd);
              frac = digits10 (n mod 10 ^ nd)
          in digits10 (n div 10 ^ nd) @
             (if nd = 0 then [] else [46] @ replicate (nd - length frac) 48 @ frac))"

datatype pyerror = AttributeError

section \<open>The parsers\<close>

subsection \<open>Containers\<close>

text \<open>\<^verbatim>\<open>\b[A-Z]{4}\d{7}\b\<close>\<close>

definition re_container :: "ucd \<Rightarrow> regex" where
  "re_container db =
     seqs [Wordb (is_word db), Rep is_AZ 4 (Some 4) True, Rep (is_digit db) 7 (Some 7) True,
           Wordb (is_word db)]"

definition parse_containers :: "ucd \<Rightarrow> ustring \<Rightarrow> ustring list" where
  "parse_containers db text = sort (remdups (find_all (plain (re_container db)) text))"

subsection \<open>Character classes of the patterns\<close>

definition nl :: regex where
  "nl = Chr (\<lambda>c. c = 10)"

definition spaces0 :: regex where
  "spaces0 = Rep is_space 0 None True"

definition spaces1 :: regex where
  "spaces1 = Rep is_space 1 None True"

text \<open>\<^verbatim>\<open>[:#]?\<close>\<close>

definition opt_sep :: regex where
  "opt_sep = Rep (\<lambda>c. c = 58 \<or> c = 35) 0 (Some 1) True"

text \<open>\<^verbatim>\<open>[\d\.,]\<close>\<close>

definition is_numch :: "ucd \<Rightarrow> int \<Rightarrow> bool" where
  "is_numch db c \<longleftrightarrow> is_digit db c \<or> c = 46 \<or> c = 44"

text \<open>\<^verbatim>\<open>re.search(r"\d", s)\<close> as a truth value.\<close>

definition has_digit :: "ucd \<Rightarrow> ustring \<Rightarrow> bool" where
  "has_digit db s \<longleftrightarrow> search (plain (Chr (is_digit db))) s \<noteq> None"

subsection \<open>Invoice number\<close>

text \<open>\<^verbatim>\<open>(?:^|\n)\s*Invoice\s+(\d{6,})\b\<close>, ignoring case\<close>

definition pat_invoice_line :: "ucd \<Rightarrow> pattern" where
  "pat_invoice_line db =
     Pat (seqs [Alt Bol nl, spaces0, lit_ci ''Invoice'', spaces1])
         (Rep (is_digit db) 6 None True)
         (Wordb (is_word db))"

text \<open>\<^verbatim>\<open>Invoice\s*[:#]?\s*(\d{6,})\b\<close>, ignoring case\<close>

definition pat_invoice_any :: "ucd \<Rightarrow> pattern" where
  "pat_invoice_any db =
     Pat (seqs [lit_ci ''Invoice'', spaces0, opt_sep, spaces0])
         (Rep (is_digit db) 6 None True)
         (Wordb (is_word db))"

definition parse_invoice_number :: "ucd \<Rightarrow> ustring \<Rightarrow> ustring" where
  "parse_invoice_number db text =
     (case search (pat_invoice_line db) text of
        Some m \<Rightarrow> m_group1 m
      | None \<Rightarrow>
          (case search (pat_invoice_any db) text of
             Some m \<Rightarrow> m_group1 m
           | None \<Rightarrow> []))"

subsection \<open>Customer order number\<close>

text \<open>\<^verbatim>\<open>\bCE-\d{4}-\d{2}\b\<close>\<close>

definition re_order :: "ucd \<Rightarrow> regex" where
  "re_order db =
     seqs [Wordb (is_word db), lit ''CE-'', Rep (is_digit db) 4 (Some 4) True, lit ''-'',
           Rep (is_digit db) 2 (Some 2) True, Wordb (is_word db)]"

text \<open>\<^verbatim>\<open>[A-Za-z0-9\-\/]\<close>, as it is and under \<^verbatim>\<open>re.IGNORECASE\<close>\<close>

definition is_orderch :: "int \<Rightarrow> bool" where
  "is_orderch c \<longleftrightarrow> is_AZ c \<or> is_az c \<or> is_09 c \<or> c = 45 \<or> c = 47"

definition is_orderch_ci :: "int \<Rightarrow> bool" where
  "is_orderch_ci c \<longleftrightarrow> ci_letter c \<or> is_09 c \<or> c = 45 \<or> c = 47"

text \<open>\<^verbatim>\<open>Customer\s+Order\s+Number\s*[:#]?\s*([A-Za-z0-9\-\/]+)\<close>, ignoring case\<close>

definition pat_order_label :: pattern where
  "pat_order_label =
     Pat (seqs [lit_ci ''Customer'', spaces1, lit_ci ''Order'', spaces1, lit_ci ''Number'',
                spaces0, opt_sep, spaces0])
         (Rep is_orderch_ci 1 None True)
         Eps"

text \<open>
  \<^verbatim>\<open>re.match(r"[A-Za-z0-9\-\/]+", val)\<close>, without \<^verbatim>\<open>re.IGNORECASE\<close>: a match at the
  start of \<open>val\<close> only. The program calls \<^verbatim>\<open>.group(0)\<close> on the result unchecked, which
  raises \<^verbatim>\<open>AttributeError\<close> when there is no match.
\<close>

definition parse_customer_order :: "ucd \<Rightarrow> ustring \<Rightarrow> pyerror + ustring" where
  "parse_customer_order db text =
     (case search (plain (re_order db)) text of
        Some m \<Rightarrow> Inr (m_group0 m)
      | None \<Rightarrow>
          (case search pat_order_label text of
             Some m \<Rightarrow>
               (let val = m_group1 m in
                case search (plain (re_order db)) val of
                  Some m2 \<Rightarrow> Inr (m_group0 m2)
                | None \<Rightarrow>
                    (case pmatch (plain (Rep is_orderch 1 None True)) ([], val) of
                       [] \<Rightarrow> Inl AttributeError
                     | m3 # _ \<Rightarrow> Inr (m_group0 m3)))
           | None \<Rightarrow> Inr []))"

subsection \<open>Bill of lading number\<close>

text \<open>
  \<^verbatim>\<open>(?:^|\n)\s*(?:BILL\s+OF\s+LADING\s+No\.?|B\/?L\s*No\.?)\s*[:#]?\s*([A-Z0-9]{8,20})\<close>,
  ignoring case
\<close>

definition pat_bl_label :: pattern where
  "pat_bl_label =
     Pat (seqs [Alt Bol nl, spaces0,
                Alt (seqs [lit_ci ''BILL'', spaces1, lit_ci ''OF'', spaces1, lit_ci ''LADING'',
                           spaces1, lit_ci ''No'', Rep (\<lambda>c. c = 46) 0 (Some 1) True])
                    (seqs [lit_ci ''B'', Rep (\<lambda>c. c = 47) 0 (Some 1) True, lit_ci ''L'',
                           spaces0, lit_ci ''No'', Rep (\<lambda>c. c = 46) 0 (Some 1) True]),
                spaces0, opt_sep, spaces0])
         (Rep (\<lambda>c. ci_letter c \<or> is_09 c) 8 (Some 20) True)
         Eps"

text \<open>\<^verbatim>\<open>\b(?!EBKG)[A-Z]{3,6}[A-Z0-9]{6,12}\b\<close>\<close>

definition re_bl_token :: "ucd \<Rightarrow> regex" where
  "re_bl_token db =
     seqs [Wordb (is_word db), NegLook (lit ''EBKG''), Rep is_AZ 3 (Some 6) True,
           Rep (\<lambda>c. is_AZ c \<or> is_09 c) 6 (Some 12) True, Wordb (is_word db)]"

text \<open>\<^verbatim>\<open>BOOKING\s+REF\<close>, ignoring case\<close>

definition re_booking_ref :: regex where
  "re_booking_ref = seqs [lit_ci ''BOOKING'', spaces1, lit_ci ''REF'']"

definition near_booking_ref :: "ustring \<Rightarrow> bool" where
  "near_booking_ref near \<longleftrightarrow> search (plain re_booking_ref) near \<noteq> None"

text \<open>Tier 1: the explicit label; the token must hold a digit.\<close>

definition bl_label :: "ucd \<Rightarrow> ustring \<Rightarrow> ustring option" where
  "bl_label db text =
     (case search pat_bl_label text of
        Some m \<Rightarrow> if has_digit db (m_group1 m) then Some (m_group1 m) else None
      | None \<Rightarrow> None)"

text \<open>Tier 2: around each occurrence of a keyword, a window of 300 characters each side.\<close>

definition bl_keywords :: "string list" where
  "bl_keywords = [''BILL OF LADING'', ''RIDER PAGE'', ''BILL OF LADING No'', ''RIDER'']"

definition bl_window :: "ustring \<Rightarrow> rematch \<Rightarrow> ustring" where
  "bl_window text km =
     (let start = max 0 (int (c_pos (m_start km)) - 300);
          end = min (int (length text)) (int (c_pos (m_end km)) + 300)
      in py_slice text start end)"

definition bl_candidates :: "ucd \<Rightarrow> ustring \<Rightarrow> ustring list" where
  "bl_candidates db window = filter (has_digit db) (find_all (plain (re_bl_token db)) window)"

definition bl_near :: "ustring \<Rightarrow> ustring \<Rightarrow> ustring" where
  "bl_near window c =
     (let pos = py_find window c
      in py_slice window (max 0 (pos - 40)) (pos + int (length c) + 40))"

definition bl_filtered :: "ucd \<Rightarrow> ustring \<Rightarrow> ustring list" where
  "bl_filtered db window =
     filter (\<lambda>c. \<not> near_booking_ref (bl_near window c)) (bl_candidates db window)"

text \<open>
  \<^verbatim>\<open>filtered.sort(key=len, reverse=True); filtered[0]\<close>: the sort is stable, also when
  reversed, so the head is the first of the longest candidates.
\<close>

definition bl_longest :: "ustring list \<Rightarrow> ustring" where
  "bl_longest filtered = hd (sort_key (\<lambda>c. - int (length c)) filtered)"

fun bl_scan_matches :: "ucd \<Rightarrow> ustring \<Rightarrow> rematch list \<Rightarrow> ustring option" where
  "bl_scan_matches db text [] = None"
| "bl_scan_matches db text (km # kms) =
     (let filtered = bl_filtered db (bl_window text km)
      in if filtered \<noteq> [] then Some (bl_longest filtered) else bl_scan_matches db text kms)"

fun bl_scan_keywords :: "ucd \<Rightarrow> ustring \<Rightarrow> string list \<Rightarrow> ustring option" where
  "bl_scan_keywords db text [] = None"
| "bl_scan_keywords db text (kw # kws) =
     (case bl_scan_matches db text (finditer (plain (lit_ci kw)) text) of
        Some r \<Rightarrow> Some r
      | None \<Rightarrow> bl_scan_keywords db text kws)"

text \<open>Tier 3: the first token of the whole text that passes both tests.\<close>

definition bl_text_near :: "ustring \<Rightarrow> rematch \<Rightarrow> ustring" where
  "bl_text_near text m =
     py_slice text (max 0 (int (c_pos (m_start m)) - 40)) (int (c_pos (m_end m)) + 40)"

fun bl_global :: "ucd \<Rightarrow> ustring \<Rightarrow> rematch list \<Rightarrow> ustring" where
  "bl_global db text [] = []"
| "bl_global db text (m # ms) =
     (let token = m_group0 m
      in if \<not> has_digit db token then bl_global db text ms
         else if near_booking_ref (bl_text_near text m) then bl_global db text ms
         else token)"

definition parse_bl_number :: "ucd \<Rightarrow> ustring \<Rightarrow> ustring" where
  "parse_bl_number db text =
     (case bl_label db text of
        Some r \<Rightarrow> r
      | None \<Rightarrow>
          (case bl_scan_keywords db text bl_keywords of
             Some r \<Rightarrow> r
           | None \<Rightarrow> bl_global db text (finditer (plain (re_bl_token db)) text)))"

subsection \<open>Product\<close>

text \<open>\<^verbatim>\<open>(AGILITY[^\n]{0,120}?LDPE)\<close>, ignoring case\<close>

definition pat_product :: pattern where
  "pat_product =
     plain (seqs [lit_ci ''AGILITY'', Rep (\<lambda>c. c \<noteq> 10) 0 (Some 120) False, lit_ci ''LDPE''])"

text \<open>The trade mark sign is U+2122.\<close>

definition product_clean :: "ucd \<Rightarrow> ustring \<Rightarrow> ustring" where
  "product_clean db product =
     py_upper db (py_join (ustr '' '') (py_split (py_strip (py_remove 8482 product))))"

definition parse_product :: "ucd \<Rightarrow> ustring \<Rightarrow> ustring" where
  "parse_product db text =
     (case search pat_product text of
        Some m \<Rightarrow> product_clean db (m_group1 m)
      | None \<Rightarrow> [])"

subsection \<open>Total net weight\<close>

text \<open>\<^verbatim>\<open>TOTAL\s+NET\s+WEIGHT\s*[:#]?\s*([\d\.,]+)\s*KG\<close>, ignoring case\<close>

definition pat_total_net :: "ucd \<Rightarrow> pattern" where
  "pat_total_net db =
     Pat (seqs [lit_ci ''TOTAL'', spaces1, lit_ci ''NET'', spaces1, lit_ci ''WEIGHT'', spaces0,
                opt_sep, spaces0])
         (Rep (is_numch db) 1 None True)
         (seqs [spaces0, lit_ci ''KG''])"

text \<open>\<^verbatim>\<open>Item\s+Net\s+Weight\s*:\s*([\d\.,]+)\s*KG\<close>, ignoring case\<close>

definition pat_item_net :: "ucd \<Rightarrow> pattern" where
  "pat_item_net db =
     Pat (seqs [lit_ci ''Item'', spaces1, lit_ci ''Net'', spaces1, lit_ci ''Weight'', spaces0,
                Chr (\<lambda>c. c = 58), spaces0])
         (Rep (is_numch db) 1 None True)
         (seqs [spaces0, lit_ci ''KG''])"

text \<open>\<^verbatim>\<open>\b([A-Z]{4}\d{7})\b\<close>\<close>

definition pat_container :: "ucd \<Rightarrow> pattern" where
  "pat_container db =
     Pat (Wordb (is_word db))
         (seqs [Rep is_AZ 4 (Some 4) True, Rep (is_digit db) 7 (Some 7) True])
         (Wordb (is_word db))"

definition nw_window :: "ustring \<Rightarrow> rematch \<Rightarrow> ustring" where
  "nw_window text cm =
     (let start = max 0 (int (c_pos (m_start cm)) - 400);
          end = min (int (length text)) (int (c_pos (m_end cm)) + 400)
      in py_slice text start end)"

text \<open>
  The weight a container occurrence contributes: the first item weight of its window,
  if there is one and \<^verbatim>\<open>float\<close> accepts it.
\<close>

definition nw_item :: "ucd \<Rightarrow> ustring \<Rightarrow> rematch \<Rightarrow> pyfloat option" where
  "nw_item db text cm =
     (case search (pat_item_net db) (nw_window text cm) of
        Some m2 \<Rightarrow> py_float db (py_remove 44 (m_group1 m2))
      | None \<Rightarrow> None)"

text \<open>The loop over the container occurrences, on the state \<^verbatim>\<open>(total, seen)\<close> (\<open>tot\<close> here).\<close>

fun nw_loop :: "ucd \<Rightarrow> ustring \<Rightarrow> rematch list \<Rightarrow> pyfloat \<times> ustring set \<Rightarrow> pyfloat \<times> ustring set" where
  "nw_loop db text [] st = st"
| "nw_loop db text (cm # cms) (tot, seen) =
     (let code = m_group1 cm
      in if code \<in> seen then nw_loop db text cms (tot, seen)
         else case nw_item db text cm of
                Some v \<Rightarrow> nw_loop db text cms (fadd tot v, insert code seen)
              | None \<Rightarrow> nw_loop db text cms (tot, seen))"

definition nw_fallback :: "ucd \<Rightarrow> ustring \<Rightarrow> ustring" where
  "nw_fallback db text =
     (let tot = fst (nw_loop db text (finditer (pat_container db) text) (Fin 0, {}))
      in if fpositive tot then fmt_fixed 3 tot else [])"

definition parse_total_net_weight :: "ucd \<Rightarrow> ustring \<Rightarrow> ustring" where
  "parse_total_net_weight db text =
     (case search (pat_total_net db) text of
        Some m \<Rightarrow>
          (case py_float db (py_remove 44 (m_group1 m)) of
             Some v \<Rightarrow> fmt_fixed 3 v
           | None \<Rightarrow> nw_fallback db text)
      | None \<Rightarrow> nw_fallback db text)"

subsection \<open>Total amount\<close>

text \<open>
  \<^verbatim>\<open>(?:^|\n)\s*Total\s+([\d\.,]{2,})\b(?![^\n]{0,40}\b(KG|CD3|WEIGHT|VOLUME)\b)\<close>,
  ignoring case. The group inside the lookahead is never read.
\<close>

definition re_unit :: regex where
  "re_unit = Alt (lit_ci ''KG'') (Alt (lit_ci ''CD3'') (Alt (lit_ci ''WEIGHT'') (lit_ci ''VOLUME'')))"

definition pat_total_line :: "ucd \<Rightarrow> pattern" where
  "pat_total_line db =
     Pat (seqs [Alt Bol nl, spaces0, lit_ci ''Total'', spaces1])
         (Rep (is_numch db) 2 None True)
         (seqs [Wordb (is_word db),
                NegLook (seqs [Rep (\<lambda>c. c \<noteq> 10) 0 (Some 40) True, Wordb (is_word db), re_unit,
                               Wordb (is_word db)])])"

text \<open>\<^verbatim>\<open>Total\s+([\d\.,]{2,})\<close>, ignoring case\<close>

definition pat_total_any :: "ucd \<Rightarrow> pattern" where
  "pat_total_any db = Pat (seqs [lit_ci ''Total'', spaces1]) (Rep (is_numch db) 2 None True) Eps"

text \<open>One strategy: the value of the first match, if \<^verbatim>\<open>float\<close> accepts it.\<close>

definition amount_of :: "ucd \<Rightarrow> pattern \<Rightarrow> ustring \<Rightarrow> ustring option" where
  "amount_of db p text =
     (case search p text of
        Some m \<Rightarrow> map_option (fmt_fixed 2) (py_float db (py_remove 44 (m_group1 m)))
      | None \<Rightarrow> None)"

definition parse_total_amount :: "ucd \<Rightarrow> ustring \<Rightarrow> ustring" where
  "parse_total_amount db text =
     (case amount_of db (pat_total_line db) text of
        Some r \<Rightarrow> r
      | None \<Rightarrow>
          (case amount_of db (pat_total_any db) text of
             Some r \<Rightarrow> r
           | None \<Rightarrow> []))"

subsection \<open>The record\<close>

text \<open>
  The column names; the accented letters are U+00FA and U+00ED. A Python \<^verbatim>\<open>dict\<close>
  keeps its keys in the order they were inserted: the record is a list of keys and values.
\<close>

definition COLUMNS :: "ustring list" where
  "COLUMNS =
     [ustr ''Customer Order Number'',
      ustr ''N'' @ [250] @ ustr ''mero de B/L'',
      ustr ''Contenedores (uno por l'' @ [237] @ ustr ''nea)'',
      ustr ''Producto'',
      ustr ''Toneladas Netas (kg)'',
      ustr ''Precio Final (USD)'',
      ustr ''N'' @ [250] @ ustr ''mero de Factura'']"

definition parse_pdf :: "ucd \<Rightarrow> ustring \<Rightarrow> pyerror + (ustring \<times> ustring) list" where
  "parse_pdf db text =
     (case parse_customer_order db text of
        Inl e \<Rightarrow> Inl e
      | Inr customer_order \<Rightarrow>
          (let bl = parse_bl_number db text;
               containers = parse_containers db text;
               product = parse_product db text;
               net_kg = parse_total_net_weight db text;
               total_amount = parse_total_amount db text;
               invoice = parse_invoice_number db text
           in Inr [(ustr ''Customer Order Number'', customer_order),
                   (ustr ''N'' @ [250] @ ustr ''mero de B/L'', bl),
                   (ustr ''Contenedores (uno por l'' @ [237] @ ustr ''nea)'',
                    py_join [10] containers),
                   (ustr ''Producto'', product),
                   (ustr ''Toneladas Netas (kg)'', net_kg),
                   (ustr ''Precio Final (USD)'', total_amount),
                   (ustr ''N'' @ [250] @ ustr ''mero de Factura'', invoice)]))"

subsection \<open>Example texts\<close>


subsection \<open>Shapes the specification names\<close>

text \<open>A container code: four upper-case letters, then seven digits.\<close>

definition container_shape :: "ucd \<Rightarrow> ustring \<Rightarrow> bool" where
  "container_shape db c \<longleftrightarrow>
     length c = 11 \<and> list_all is_AZ (take 4 c) \<and> list_all (is_digit db) (drop 4 c)"

text \<open>\<^verbatim>\<open>s.split(sep)\<close> for a single character \<open>sep\<close>: the pieces between the separators.\<close>

fun py_split_sep :: "int \<Rightarrow> ustring \<Rightarrow> ustring list" where
  "py_split_sep sep [] = [[]]"
| "py_split_sep sep (x # xs) =
     (if x = sep then [] # py_split_sep sep xs
      else case py_split_sep sep xs of [] \<Rightarrow> [[x]] | w # ws \<Rightarrow> (x # w) # ws)"

definition text_containers :: ustring where
  "text_containers = ustr ''ABCD1234567 ZZZZ0000001 ABCD1234567 x ABCD1234567''"





text \<open>The canonical order number: \<^verbatim>\<open>CE-\<close>, four digits, a hyphen, two digits.\<close>

definition order_shape :: "ucd \<Rightarrow> ustring \<Rightarrow> bool" where
  "order_shape db t \<longleftrightarrow>
     length t = 10 \<and> take 3 t = ustr ''CE-'' \<and> list_all (is_digit db) (take 4 (drop 3 t)) \<and>
     take 1 (drop 7 t) = ustr ''-'' \<and> list_all (is_digit db) (drop 8 t)"

text \<open>Neither the character before nor the character behind is a word character.\<close>

definition word_free :: "ucd \<Rightarrow> ustring \<Rightarrow> ustring \<Rightarrow> bool" where
  "word_free db pre post \<longleftrightarrow>
     (pre = [] \<or> \<not> is_word db (last pre)) \<and> (post = [] \<or> \<not> is_word db (hd post))"

definition text_order :: ustring where
  "text_order = ustr ''a CE-1234-56 b''"

definition text_order_glued :: ustring where
  "text_order_glued = ustr ''XCE-1234-56''"

text \<open>
  An invoice line: \<open>head\<close> is the text before the line (empty, or ending in a line
  break), \<open>lead\<close> is optional white space, the word \<^verbatim>\<open>Invoice\<close> in any case and white
  space, \<open>ds\<close> is a run of at least six digits, and no word character follows it.
\<close>

definition invoice_line :: "ucd \<Rightarrow> ustring \<Rightarrow> ustring \<Rightarrow> ustring \<Rightarrow> ustring \<Rightarrow> bool" where
  "invoice_line db head lead ds post \<longleftrightarrow>
     (head = [] \<or> last head = 10) \<and>
     (\<exists>ws inv sp. lead = ws @ inv @ sp \<and> list_all is_space ws \<and>
        list_all2 ci_chr (ustr ''Invoice'') inv \<and> sp \<noteq> [] \<and> list_all is_space sp) \<and>
     6 \<le> length ds \<and> list_all (is_digit db) ds \<and> (post = [] \<or> \<not> is_word db (hd post))"

definition text_invoice :: ustring where
  "text_invoice = ustr ''Invoice 000123456''"

definition text_invoice_glued :: ustring where
  "text_invoice_glued = ustr ''Invoice 123456abc''"

text \<open>
  A product span: \<^verbatim>\<open>AGILITY\<close> in any case, at most 120 characters none of which is a
  line break, \<^verbatim>\<open>LDPE\<close> in any case.
\<close>

definition product_span :: "ustring \<Rightarrow> bool" where
  "product_span seg \<longleftrightarrow>
     (\<exists>a mid l. seg = a @ mid @ l \<and> list_all2 ci_chr (ustr ''AGILITY'') a \<and>
        length mid \<le> 120 \<and> 10 \<notin> set mid \<and> list_all2 ci_chr (ustr ''LDPE'') l)"

definition text_product :: ustring where
  "text_product = ustr ''x Agility'' @ [8482] @ ustr ''  EP  1234  ldpe resin LDPE''"

definition text_product_broken :: ustring where
  "text_product_broken = ustr ''AGILITY'' @ [10] @ ustr ''LDPE''"

definition text_nothing :: ustring where
  "text_nothing = ustr ''nothing to see''"

subsection \<open>What a match reads\<close>

text \<open>
  \<open>rm r bef s rest\<close>: behind the characters \<open>bef\<close> (nearest first) and in front of
  \<open>rest\<close>, the pattern \<open>r\<close> can match by reading exactly \<open>s\<close>.
\<close>

definition rm :: "regex \<Rightarrow> int list \<Rightarrow> ustring \<Rightarrow> ustring \<Rightarrow> bool" where
  "rm r bef s rest \<longleftrightarrow> (rev s @ bef, rest) \<in> set (rmatch r (bef, s @ rest))"

section \<open>Properties of the matcher\<close>

text \<open>Every match ends at a position reached from its start by reading on.\<close>

lemma adv_adv: "adv j (adv k c) = adv (k + j) c"
  by (simp add: adv_def take_add add.commute[of j k])

lemma adv_0: "adv 0 c = c"
  by (simp add: adv_def)

lemma rep_counts_le: "k \<in> set (rep_counts p lo hi g xs) \<Longrightarrow> k \<le> length xs"
proof -
  assume k: "k \<in> set (rep_counts p lo hi g xs)"
  have "length (takeWhile p xs) \<le> length xs"
    by (rule length_takeWhile_le)
  with k show ?thesis
    by (auto simp: rep_counts_def Let_def split: option.splits if_splits)
qed

lemma rmatch_adv: "c' \<in> set (rmatch r c) \<Longrightarrow> \<exists>k\<le>length (snd c). c' = adv k c"
proof (induction r arbitrary: c c')
  case (Chr p)
  then show ?case
    by (cases c; cases "snd c") (auto simp: adv_def split: if_splits intro!: exI[of _ 1])
next
  case (Rep p lo hi g)
  then show ?case
    by (auto dest: rep_counts_le)
next
  case (Seq a b)
  from Seq.prems obtain c1 where c1: "c1 \<in> set (rmatch a c)" and c': "c' \<in> set (rmatch b c1)"
    by auto
  from Seq.IH(1)[OF c1] obtain k where k: "k \<le> length (snd c)" "c1 = adv k c"
    by blast
  from Seq.IH(2)[OF c'] obtain j where j: "j \<le> length (snd c1)" "c' = adv j c1"
    by blast
  from k j have "k + j \<le> length (snd c)" "c' = adv (k + j) c"
    by (auto simp: adv_adv) (simp add: adv_def)
  then show ?case
    by blast
next
  case (Alt a b)
  from Alt.prems have "c' \<in> set (rmatch a c) \<or> c' \<in> set (rmatch b c)"
    by simp
  then show ?case
    using Alt.IH by blast
next
  case Eps
  then show ?case
    by (auto intro!: exI[of _ 0] simp: adv_0)
next
  case Bol
  then show ?case
    by (auto intro!: exI[of _ 0] simp: adv_0 split: if_splits)
next
  case (Wordb w)
  then show ?case
    by (auto intro!: exI[of _ 0] simp: adv_0 split: if_splits)
next
  case (NegLook r)
  then show ?case
    by (auto intro!: exI[of _ 0] simp: adv_0 split: if_splits)
qed


lemma rmatch_iff:
  "c' \<in> set (rmatch r (bef, xs)) \<longleftrightarrow>
   (\<exists>s rest. xs = s @ rest \<and> c' = (rev s @ bef, rest) \<and> rm r bef s rest)"
proof
  assume "c' \<in> set (rmatch r (bef, xs))"
  from rmatch_adv[OF this] obtain k where k: "k \<le> length xs" "c' = adv k (bef, xs)"
    by auto
  have "xs = take k xs @ drop k xs"
    by simp
  moreover have "c' = (rev (take k xs) @ bef, drop k xs)"
    using k by (simp add: adv_def)
  moreover have "rm r bef (take k xs) (drop k xs)"
    using \<open>c' \<in> set (rmatch r (bef, xs))\<close> k by (simp add: rm_def adv_def)
  ultimately show "\<exists>s rest. xs = s @ rest \<and> c' = (rev s @ bef, rest) \<and> rm r bef s rest"
    by blast
next
  assume "\<exists>s rest. xs = s @ rest \<and> c' = (rev s @ bef, rest) \<and> rm r bef s rest"
  then show "c' \<in> set (rmatch r (bef, xs))"
    by (auto simp: rm_def)
qed


lemma rev_append_same: "rev s @ bef = bef \<longleftrightarrow> s = []"
proof
  assume "rev s @ bef = bef"
  then have "length (rev s @ bef) = length bef"
    by simp
  then show "s = []"
    by simp
qed simp

lemma rm_Chr: "rm (Chr p) bef s rest \<longleftrightarrow> (\<exists>x. s = [x] \<and> p x)"
proof (cases s)
  case Nil
  then show ?thesis
    by (auto simp: rm_def split: list.splits if_splits)
next
  case (Cons x xs)
  have "rev xs @ x # bef = x # bef \<longleftrightarrow> xs = []"
    using rev_append_same[of xs "x # bef"] by simp
  with Cons show ?thesis
    by (auto simp: rm_def)
qed

lemma takeWhile_covers: "length s \<le> length (takeWhile p (s @ rest)) \<longleftrightarrow> list_all p s"
proof (induction s)
  case Nil
  then show ?case
    by simp
next
  case (Cons x xs)
  then show ?case
    by auto
qed

lemma set_rep_counts:
  "set (rep_counts p lo hi g xs) =
   {k. lo \<le> k \<and> k \<le> length (takeWhile p xs) \<and> (case hi of None \<Rightarrow> True | Some h \<Rightarrow> k \<le> h)}"
proof (cases hi)
  case None
  then show ?thesis
    by (cases g) (auto simp: rep_counts_def Let_def)
next
  case (Some h)
  then show ?thesis
    by (cases g) (auto simp: rep_counts_def Let_def)
qed

lemma adv_eq_iff:
  assumes "k \<le> length (s @ rest)"
  shows "(rev s @ bef, rest) = adv k (bef, s @ rest) \<longleftrightarrow> k = length s"
proof
  assume a: "(rev s @ bef, rest) = adv k (bef, s @ rest)"
  have "snd (adv k (bef, s @ rest)) = drop k (s @ rest)"
    by (simp add: adv_def)
  with a have "drop k (s @ rest) = rest"
    by (metis snd_conv)
  then have "length (drop k (s @ rest)) = length rest"
    by (rule arg_cong)
  then have "length (s @ rest) - k = length rest"
    by (simp only: length_drop)
  with assms show "k = length s"
    by simp
next
  assume "k = length s"
  then show "(rev s @ bef, rest) = adv k (bef, s @ rest)"
    by (simp add: adv_def)
qed

lemma rm_Rep:
  "rm (Rep p lo hi g) bef s rest \<longleftrightarrow>
   list_all p s \<and> lo \<le> length s \<and> (case hi of None \<Rightarrow> True | Some h \<Rightarrow> length s \<le> h)"
proof -
  have "rm (Rep p lo hi g) bef s rest \<longleftrightarrow> length s \<in> set (rep_counts p lo hi g (s @ rest))"
  proof
    assume "rm (Rep p lo hi g) bef s rest"
    then have "(rev s @ bef, rest) \<in> (\<lambda>k. adv k (bef, s @ rest)) ` set (rep_counts p lo hi g (s @ rest))"
      by (simp add: rm_def)
    then obtain k where k: "k \<in> set (rep_counts p lo hi g (s @ rest))"
      "(rev s @ bef, rest) = adv k (bef, s @ rest)"
      by (rule imageE)
    from rep_counts_le[OF k(1)] have "k \<le> length (s @ rest)" .
    from adv_eq_iff[OF this] k(2) have "k = length s"
      by simp
    with k(1) show "length s \<in> set (rep_counts p lo hi g (s @ rest))"
      by simp
  next
    assume a: "length s \<in> set (rep_counts p lo hi g (s @ rest))"
    have e: "(rev s @ bef, rest) = adv (length s) (bef, s @ rest)"
      by (simp add: adv_def)
    from e a have "(rev s @ bef, rest) \<in> (\<lambda>k. adv k (bef, s @ rest)) ` set (rep_counts p lo hi g (s @ rest))"
      by (rule image_eqI)
    then show "rm (Rep p lo hi g) bef s rest"
      by (simp add: rm_def)
  qed
  also have "\<dots> \<longleftrightarrow> list_all p s \<and> lo \<le> length s \<and>
      (case hi of None \<Rightarrow> True | Some h \<Rightarrow> length s \<le> h)"
    unfolding set_rep_counts using takeWhile_covers[of s p rest] by blast
  finally show ?thesis .
qed

lemma split_one:
  "(\<exists>s1 s2. s = s1 @ s2 \<and> (\<exists>x. s1 = [x] \<and> P x) \<and> Q s2) \<longleftrightarrow> (\<exists>x s2. s = x # s2 \<and> P x \<and> Q s2)"
proof
  assume "\<exists>s1 s2. s = s1 @ s2 \<and> (\<exists>x. s1 = [x] \<and> P x) \<and> Q s2"
  then obtain s1 s2 x where "s = s1 @ s2" "s1 = [x]" "P x" "Q s2"
    by blast
  then have "s = x # s2 \<and> P x \<and> Q s2"
    by simp
  then show "\<exists>x s2. s = x # s2 \<and> P x \<and> Q s2"
    by blast
next
  assume "\<exists>x s2. s = x # s2 \<and> P x \<and> Q s2"
  then obtain x s2 where "s = x # s2" "P x" "Q s2"
    by blast
  then have "s = [x] @ s2 \<and> (\<exists>y. [x] = [y] \<and> P y) \<and> Q s2"
    by simp
  then show "\<exists>s1 s2. s = s1 @ s2 \<and> (\<exists>x. s1 = [x] \<and> P x) \<and> Q s2"
    by blast
qed

lemma rev_cancel: "rev s @ bef = rev s2 @ rev s1 @ bef \<Longrightarrow> s = s1 @ s2"
proof -
  assume "rev s @ bef = rev s2 @ rev s1 @ bef"
  then have "rev s @ bef = rev (s1 @ s2) @ bef"
    by simp
  then have "rev s = rev (s1 @ s2)"
    by (simp only: append_same_eq)
  then show ?thesis
    by (simp only: rev_is_rev_conv)
qed

lemma rm_Seq:
  "rm (Seq a b) bef s rest \<longleftrightarrow>
   (\<exists>s1 s2. s = s1 @ s2 \<and> rm a bef s1 (s2 @ rest) \<and> rm b (rev s1 @ bef) s2 rest)"
proof
  assume "rm (Seq a b) bef s rest"
  then obtain c1 where c1: "c1 \<in> set (rmatch a (bef, s @ rest))"
    and c2: "(rev s @ bef, rest) \<in> set (rmatch b c1)"
    by (auto simp: rm_def)
  from c1 obtain s1 r1 where 1: "s @ rest = s1 @ r1" "c1 = (rev s1 @ bef, r1)" "rm a bef s1 r1"
    unfolding rmatch_iff by blast
  from c2 have "(rev s @ bef, rest) \<in> set (rmatch b (rev s1 @ bef, r1))"
    unfolding 1(2) .
  then obtain s2 r2 where 2: "r1 = s2 @ r2" "(rev s @ bef, rest) = (rev s2 @ rev s1 @ bef, r2)"
    "rm b (rev s1 @ bef) s2 r2"
    unfolding rmatch_iff by blast
  from 2(2) have r2: "r2 = rest" and e: "rev s @ bef = rev s2 @ rev s1 @ bef"
    by simp_all
  from rev_cancel[OF e] have s: "s = s1 @ s2" .
  from 1(3) 2(1) r2 have "rm a bef s1 (s2 @ rest)"
    by simp
  moreover from 2(3) r2 have "rm b (rev s1 @ bef) s2 rest"
    by simp
  ultimately show "\<exists>s1 s2. s = s1 @ s2 \<and> rm a bef s1 (s2 @ rest) \<and> rm b (rev s1 @ bef) s2 rest"
    using s by blast
next
  assume "\<exists>s1 s2. s = s1 @ s2 \<and> rm a bef s1 (s2 @ rest) \<and> rm b (rev s1 @ bef) s2 rest"
  then obtain s1 s2 where s: "s = s1 @ s2" and a: "rm a bef s1 (s2 @ rest)"
    and b: "rm b (rev s1 @ bef) s2 rest"
    by blast
  from a s have "(rev s1 @ bef, s2 @ rest) \<in> set (rmatch a (bef, s @ rest))"
    by (simp add: rm_def)
  moreover from b s have "(rev s @ bef, rest) \<in> set (rmatch b (rev s1 @ bef, s2 @ rest))"
    by (simp add: rm_def)
  ultimately have "\<exists>c1\<in>set (rmatch a (bef, s @ rest)). (rev s @ bef, rest) \<in> set (rmatch b c1)"
    by (rule bexI[rotated])
  then show "rm (Seq a b) bef s rest"
    by (simp add: rm_def)
qed

lemma rm_Alt: "rm (Alt a b) bef s rest \<longleftrightarrow> rm a bef s rest \<or> rm b bef s rest"
  by (simp add: rm_def)

lemma rm_Eps: "rm Eps bef s rest \<longleftrightarrow> s = []"
  using rev_append_same[of s bef] by (auto simp: rm_def)

lemma rm_Bol: "rm Bol bef s rest \<longleftrightarrow> s = [] \<and> bef = []"
  using rev_append_same[of s bef] by (auto simp: rm_def)

lemma rm_Wordb: "rm (Wordb w) bef s rest \<longleftrightarrow> s = [] \<and> at_wordb w (bef, rest)"
  using rev_append_same[of s bef] by (auto simp: rm_def)


lemma rm_seqs_Nil: "rm (seqs []) bef s rest \<longleftrightarrow> s = []"
  by (simp add: seqs_def rm_Eps)

lemma rm_seqs_Cons:
  "rm (seqs (r # rs)) bef s rest \<longleftrightarrow>
   (\<exists>s1 s2. s = s1 @ s2 \<and> rm r bef s1 (s2 @ rest) \<and> rm (seqs rs) (rev s1 @ bef) s2 rest)"
  using rm_Seq[of r "seqs rs" bef s rest] by (simp add: seqs_def)

lemma rm_lit: "rm (lit str) bef s rest \<longleftrightarrow> s = ustr str"
proof (induction str arbitrary: bef s)
  case Nil
  then show ?case
    by (simp add: lit_def rm_seqs_Nil ustr_def)
next
  case (Cons a str)
  have "rm (lit (a # str)) bef s rest \<longleftrightarrow>
      (\<exists>s1 s2. s = s1 @ s2 \<and> rm (Chr (\<lambda>c. c = of_char a)) bef s1 (s2 @ rest) \<and>
         rm (lit str) (rev s1 @ bef) s2 rest)"
    using rm_seqs_Cons[of "Chr (\<lambda>c. c = of_char a)" "map (\<lambda>p. Chr (\<lambda>c. c = of_char p)) str"]
    by (simp add: lit_def)
  also have "\<dots> \<longleftrightarrow> (\<exists>x s2. s = x # s2 \<and> x = of_char a \<and> s2 = ustr str)"
    unfolding Cons.IH rm_Chr by (rule split_one)
  also have "\<dots> \<longleftrightarrow> s = ustr (a # str)"
    by (auto simp: ustr_def)
  finally show ?case .
qed

lemma rm_lit_ci: "rm (lit_ci str) bef s rest \<longleftrightarrow> list_all2 ci_chr (ustr str) s"
proof (induction str arbitrary: bef s)
  case Nil
  then show ?case
    by (simp add: lit_ci_def rm_seqs_Nil ustr_def)
next
  case (Cons a str)
  have "rm (lit_ci (a # str)) bef s rest \<longleftrightarrow>
      (\<exists>s1 s2. s = s1 @ s2 \<and> rm (Chr (ci_chr (of_char a))) bef s1 (s2 @ rest) \<and>
         rm (lit_ci str) (rev s1 @ bef) s2 rest)"
    using rm_seqs_Cons[of "Chr (ci_chr (of_char a))" "map (\<lambda>p. Chr (ci_chr (of_char p))) str"]
    by (simp add: lit_ci_def)
  also have "\<dots> \<longleftrightarrow> (\<exists>x s2. s = x # s2 \<and> ci_chr (of_char a) x \<and> list_all2 ci_chr (ustr str) s2)"
    unfolding Cons.IH rm_Chr by (rule split_one)
  also have "\<dots> \<longleftrightarrow> list_all2 ci_chr (ustr (a # str)) s"
    by (auto simp: ustr_def list_all2_Cons1)
  finally show ?case .
qed

text \<open>The matches of a pattern with its group, and what \<^verbatim>\<open>re.search\<close> finds.\<close>

lemma pmatch_eq: "pmatch (Pat pre grp post) c =
    concat (map (\<lambda>c1. concat (map (\<lambda>c2.
        map (\<lambda>c3. \<lparr>m_start = c, m_end = c3, m_group1 = between c1 c2\<rparr>) (rmatch post c2))
       (rmatch grp c1))) (rmatch pre c))"
  by simp

lemma pmatch_mem:
  "m \<in> set (pmatch (Pat pre grp post) c) \<longleftrightarrow>
   (\<exists>c1\<in>set (rmatch pre c). \<exists>c2\<in>set (rmatch grp c1). \<exists>c3\<in>set (rmatch post c2).
      m = \<lparr>m_start = c, m_end = c3, m_group1 = between c1 c2\<rparr>)"
  by auto

lemma pmatch_iff:
  "m \<in> set (pmatch (Pat pre grp post) (bef, xs)) \<longleftrightarrow>
   (\<exists>s1 s2 s3 rest. xs = s1 @ s2 @ s3 @ rest \<and> rm pre bef s1 (s2 @ s3 @ rest) \<and>
      rm grp (rev s1 @ bef) s2 (s3 @ rest) \<and> rm post (rev s2 @ rev s1 @ bef) s3 rest \<and>
      m = \<lparr>m_start = (bef, xs), m_end = (rev s3 @ rev s2 @ rev s1 @ bef, rest), m_group1 = s2\<rparr>)"
  (is "?L \<longleftrightarrow> ?R")
proof
  assume ?L
  then obtain c1 c2 c3 where c: "c1 \<in> set (rmatch pre (bef, xs))" "c2 \<in> set (rmatch grp c1)"
    "c3 \<in> set (rmatch post c2)" "m = \<lparr>m_start = (bef, xs), m_end = c3, m_group1 = between c1 c2\<rparr>"
    unfolding pmatch_mem by blast
  from c(1) obtain s1 r1 where 1: "xs = s1 @ r1" "c1 = (rev s1 @ bef, r1)" "rm pre bef s1 r1"
    unfolding rmatch_iff by blast
  from c(2) have "c2 \<in> set (rmatch grp (rev s1 @ bef, r1))"
    unfolding 1(2) .
  then obtain s2 r2 where 2: "r1 = s2 @ r2" "c2 = (rev s2 @ rev s1 @ bef, r2)"
    "rm grp (rev s1 @ bef) s2 r2"
    unfolding rmatch_iff by blast
  from c(3) have "c3 \<in> set (rmatch post (rev s2 @ rev s1 @ bef, r2))"
    unfolding 2(2) .
  then obtain s3 r3 where 3: "r2 = s3 @ r3" "c3 = (rev s3 @ rev s2 @ rev s1 @ bef, r3)"
    "rm post (rev s2 @ rev s1 @ bef) s3 r3"
    unfolding rmatch_iff by blast
  have g: "between c1 c2 = s2"
    unfolding 1(2) 2(2) 2(1) by (simp add: between_def c_pos_def)
  have "xs = s1 @ s2 @ s3 @ r3"
    using 1(1) 2(1) 3(1) by simp
  moreover have "rm pre bef s1 (s2 @ s3 @ r3)"
    using 1(3) 2(1) 3(1) by simp
  moreover have "rm grp (rev s1 @ bef) s2 (s3 @ r3)"
    using 2(3) 3(1) by simp
  moreover have "m = \<lparr>m_start = (bef, xs), m_end = (rev s3 @ rev s2 @ rev s1 @ bef, r3), m_group1 = s2\<rparr>"
    using c(4) g 3(2) by simp
  ultimately show ?R
    using 3(3) by blast
next
  assume ?R
  then obtain s1 s2 s3 rest where r: "xs = s1 @ s2 @ s3 @ rest" "rm pre bef s1 (s2 @ s3 @ rest)"
    "rm grp (rev s1 @ bef) s2 (s3 @ rest)" "rm post (rev s2 @ rev s1 @ bef) s3 rest"
    "m = \<lparr>m_start = (bef, xs), m_end = (rev s3 @ rev s2 @ rev s1 @ bef, rest), m_group1 = s2\<rparr>"
    by blast
  let ?c1 = "(rev s1 @ bef, s2 @ s3 @ rest)"
  let ?c2 = "(rev s2 @ rev s1 @ bef, s3 @ rest)"
  let ?c3 = "(rev s3 @ rev s2 @ rev s1 @ bef, rest)"
  have 1: "?c1 \<in> set (rmatch pre (bef, xs))"
    using r(1,2) by (simp add: rm_def)
  have 2: "?c2 \<in> set (rmatch grp ?c1)"
    using r(3) by (simp add: rm_def)
  have 3: "?c3 \<in> set (rmatch post ?c2)"
    using r(4) by (simp add: rm_def)
  have g: "between ?c1 ?c2 = s2"
    by (simp add: between_def c_pos_def)
  have "m = \<lparr>m_start = (bef, xs), m_end = ?c3, m_group1 = between ?c1 ?c2\<rparr>"
    unfolding g by (rule r(5))
  with 1 2 3 show ?L
    unfolding pmatch_mem by blast
qed

lemma pmatch_plain_iff:
  "m \<in> set (pmatch (plain r) (bef, xs)) \<longleftrightarrow>
   (\<exists>s rest. xs = s @ rest \<and> rm r bef s rest \<and>
      m = \<lparr>m_start = (bef, xs), m_end = (rev s @ bef, rest), m_group1 = s\<rparr>)"
  unfolding plain_def pmatch_iff by (auto simp: rm_Eps)

lemma search_from_None:
  "search_from p bef xs = None \<longleftrightarrow> (\<forall>s rest. xs = s @ rest \<longrightarrow> pmatch p (rev s @ bef, rest) = [])"
proof (induction xs arbitrary: bef)
  case Nil
  then show ?case
    by (auto split: list.splits)
next
  case (Cons x xs)
  have "(\<forall>s rest. x # xs = s @ rest \<longrightarrow> pmatch p (rev s @ bef, rest) = []) \<longleftrightarrow>
      pmatch p (bef, x # xs) = [] \<and> (\<forall>s rest. xs = s @ rest \<longrightarrow> pmatch p (rev s @ x # bef, rest) = [])"
    (is "?A \<longleftrightarrow> ?B \<and> ?C")
  proof (intro iffI conjI)
    assume ?A
    from this[rule_format, of "[]" "x # xs"] show ?B
      by simp
    show ?C
    proof (intro allI impI)
      fix s rest
      assume "xs = s @ rest"
      with \<open>?A\<close>[rule_format, of "x # s" rest] show "pmatch p (rev s @ x # bef, rest) = []"
        by simp
    qed
  next
    assume bc: "?B \<and> ?C"
    show ?A
    proof (intro allI impI)
      fix s rest
      assume e: "x # xs = s @ rest"
      show "pmatch p (rev s @ bef, rest) = []"
      proof (cases s)
        case Nil
        with e bc show ?thesis
          by simp
      next
        case (Cons y ys)
        with e have "xs = ys @ rest" "y = x"
          by auto
        with bc Cons show ?thesis
          by simp
      qed
    qed
  qed
  with Cons.IH[of "x # bef"] show ?case
    by (auto split: list.splits)
qed

lemma search_from_Some:
  "search_from p bef xs = Some m \<Longrightarrow>
   \<exists>s rest. xs = s @ rest \<and> pmatch p (rev s @ bef, rest) \<noteq> [] \<and>
     m = hd (pmatch p (rev s @ bef, rest)) \<and>
     (\<forall>s' rest'. xs = s' @ rest' \<and> length s' < length s \<longrightarrow> pmatch p (rev s' @ bef, rest') = [])"
proof (induction xs arbitrary: bef)
  case Nil
  then show ?case
    by (auto split: list.splits)
next
  case (Cons x xs)
  show ?case
  proof (cases "pmatch p (bef, x # xs)")
    case Nil
    with Cons.prems have "search_from p (x # bef) xs = Some m"
      by simp
    from Cons.IH[OF this] obtain s rest where s: "xs = s @ rest" "pmatch p (rev s @ x # bef, rest) \<noteq> []"
      "m = hd (pmatch p (rev s @ x # bef, rest))"
      "\<forall>s' rest'. xs = s' @ rest' \<and> length s' < length s \<longrightarrow> pmatch p (rev s' @ x # bef, rest') = []"
      by blast
    have "\<forall>s' rest'. x # xs = s' @ rest' \<and> length s' < length (x # s) \<longrightarrow>
        pmatch p (rev s' @ bef, rest') = []"
    proof (intro allI impI)
      fix s' rest'
      assume a: "x # xs = s' @ rest' \<and> length s' < length (x # s)"
      show "pmatch p (rev s' @ bef, rest') = []"
      proof (cases s')
        case Nil
        with a \<open>pmatch p (bef, x # xs) = []\<close> show ?thesis
          by simp
      next
        case (Cons y ys)
        with a have "xs = ys @ rest'" "length ys < length s" "y = x"
          by auto
        with s(4) Cons show ?thesis
          by simp
      qed
    qed
    with s(1-3) show ?thesis
      by (intro exI[of _ "x # s"] exI[of _ rest]) simp
  next
    case (Cons m' ms)
    with Cons.prems have "m = m'"
      by simp
    with Cons show ?thesis
      by (intro exI[of _ "[]"] exI[of _ "x # xs"]) simp
  qed
qed

lemma finditer_from_matches:
  "m \<in> set (finditer_from p bef xs) \<Longrightarrow>
   \<exists>s rest. xs = s @ rest \<and> m \<in> set (pmatch p (rev s @ bef, rest))"
proof (induction p bef xs rule: finditer_from.induct)
  case (1 p bef xs)
  show ?case
  proof (cases "search_from p bef xs")
    case None
    with "1.prems" show ?thesis
      by (simp add: finditer_from.simps)
  next
    case (Some m0)
    from search_from_Some[OF Some] obtain s0 r0 where s0: "xs = s0 @ r0"
      "pmatch p (rev s0 @ bef, r0) \<noteq> []" "m0 = hd (pmatch p (rev s0 @ bef, r0))"
      by blast
    then have m0: "m0 \<in> set (pmatch p (rev s0 @ bef, r0))"
      by simp
    show ?thesis
    proof (cases "m = m0")
      case True
      with m0 s0(1) show ?thesis
        by blast
    next
      case False
      with "1.prems" Some have lt: "length (snd (m_end m0)) < length xs"
        and mem: "m \<in> set (finditer_from p (fst (m_end m0)) (snd (m_end m0)))"
        by (auto simp: finditer_from.simps[of p bef xs] split: if_splits)
      from "1.IH"[OF Some lt mem] obtain s rest where s: "snd (m_end m0) = s @ rest"
        "m \<in> set (pmatch p (rev s @ fst (m_end m0), rest))"
        by blast
      obtain pre grp post where p: "p = Pat pre grp post"
        by (cases p)
      from m0 obtain s1 s2 s3 r1 where t0: "r0 = s1 @ s2 @ s3 @ r1"
        "m0 = \<lparr>m_start = (rev s0 @ bef, r0), m_end = (rev s3 @ rev s2 @ rev s1 @ rev s0 @ bef, r1),
           m_group1 = s2\<rparr>"
        unfolding p pmatch_iff by blast
      define t where "t = s1 @ s2 @ s3"
      have t: "r0 = t @ r1" "m_end m0 = (rev t @ rev s0 @ bef, r1)"
        using t0 by (simp_all add: t_def)
      from s t s0(1) have "xs = (s0 @ t @ s) @ rest" "m \<in> set (pmatch p (rev (s0 @ t @ s) @ bef, rest))"
        by simp_all
      then show ?thesis
        by blast
    qed
  qed
qed

section \<open>The bill of lading number\<close>





section \<open>The container list\<close>

lemma finditer_matches:
  "m \<in> set (finditer p text) \<Longrightarrow>
   \<exists>pre rest. text = pre @ rest \<and> m \<in> set (pmatch p (rev pre, rest))"
  using finditer_from_matches[of m p "[]" "text"] by (simp add: finditer_def)

lemma rm_container_shape: "rm (re_container db) bef s rest \<Longrightarrow> container_shape db s"
  by (auto simp: re_container_def rm_seqs_Cons rm_seqs_Nil rm_Wordb rm_Rep container_shape_def)

lemma find_all_containers:
  "c \<in> set (find_all (plain (re_container db)) text) \<Longrightarrow> container_shape db c"
proof -
  assume "c \<in> set (find_all (plain (re_container db)) text)"
  then obtain m where m: "m \<in> set (finditer (plain (re_container db)) text)" "c = m_group1 m"
    by (auto simp: find_all_def)
  from finditer_matches[OF m(1)] obtain pre rest where
    "m \<in> set (pmatch (plain (re_container db)) (rev pre, rest))"
    by blast
  then obtain s r where "rm (re_container db) (rev pre) s r" "m_group1 m = s"
    unfolding pmatch_plain_iff by auto
  with m(2) show ?thesis
    using rm_container_shape by blast
qed

lemma split_sep_plain: "sep \<notin> set x \<Longrightarrow> py_split_sep sep x = [x]"
  by (induction x) auto

lemma split_sep_append:
  "sep \<notin> set x \<Longrightarrow> py_split_sep sep (x @ sep # zs) = x # py_split_sep sep zs"
  by (induction x) (auto split: list.splits)

lemma split_join_lines:
  "cs \<noteq> [] \<Longrightarrow> \<forall>c\<in>set cs. sep \<notin> set c \<Longrightarrow> py_split_sep sep (py_join [sep] cs) = cs"
proof (induction cs)
  case Nil
  then show ?case
    by simp
next
  case (Cons x cs)
  show ?case
  proof (cases cs)
    case Nil
    with Cons.prems show ?thesis
      by (simp add: split_sep_plain)
  next
    case (Cons y ys)
    with Cons.IH Cons.prems have "py_split_sep sep (py_join [sep] (y # ys)) = y # ys"
      by simp
    with Cons Cons.prems show ?thesis
      by (simp add: split_sep_append)
  qed
qed

lemma container_no_newline: "container_shape db c \<Longrightarrow> 10 \<notin> set c"
proof
  assume s: "container_shape db c" and m: "10 \<in> set c"
  from m have "10 \<in> set (take 4 c @ drop 4 c)" by simp
  then have "10 \<in> set (take 4 c) \<or> 10 \<in> set (drop 4 c)" by (simp only: set_append Un_iff)
  with s show False
    by (auto simp: container_shape_def list_all_iff is_AZ_def is_digit_def is_09_def)
qed

text \<open>
  C7. The container codes come out strictly ascending, so without duplicates, each of
  them four upper-case letters and seven digits; joined with line breaks and split again
  they are the same list (the empty list is the empty string).
\<close>

theorem parse_containers_sorted:
  "let cs = parse_containers db text; out = py_join [10] cs
   in sorted_wrt (<) cs \<and> distinct cs \<and> (\<forall>c\<in>set cs. container_shape db c) \<and>
      (if cs = [] then out = [] else py_split_sep 10 out = cs)"
proof -
  let ?cs = "parse_containers db text"
  have 1: "sorted_wrt (<) ?cs"
    by (simp add: parse_containers_def strict_sorted_iff)
  have 2: "distinct ?cs"
    by (simp add: parse_containers_def)
  have 3: "\<forall>c\<in>set ?cs. container_shape db c"
    by (auto simp: parse_containers_def dest: find_all_containers)
  then have "\<forall>c\<in>set ?cs. 10 \<notin> set c"
    using container_no_newline by blast
  then have 4: "?cs \<noteq> [] \<Longrightarrow> py_split_sep 10 (py_join [10] ?cs) = ?cs"
    by (rule split_join_lines[rotated])
  from 1 2 3 4 show ?thesis
    by (simp add: Let_def)
qed

text \<open>A text that repeats one code three times.\<close>

theorem parse_containers_sorted_witness:
  "parse_containers ucd_ascii text_containers = [ustr ''ABCD1234567'', ustr ''ZZZZ0000001''] \<and>
   sorted_wrt (<) [ustr ''ABCD1234567'', ustr ''ZZZZ0000001''] \<and>
   container_shape ucd_ascii (ustr ''ABCD1234567'') \<and>
   container_shape ucd_ascii (ustr ''ZZZZ0000001'') \<and>
   py_split_sep 10 (py_join [10] [ustr ''ABCD1234567'', ustr ''ZZZZ0000001'']) =
     [ustr ''ABCD1234567'', ustr ''ZZZZ0000001'']"
proof -
  have e: "parse_containers ucd_ascii text_containers = [ustr ''ABCD1234567'', ustr ''ZZZZ0000001'']"
    unfolding text_containers_def by code_simp
  from parse_containers_sorted[of ucd_ascii text_containers] show ?thesis
    unfolding e Let_def by simp
qed

section \<open>The tiers of the bill of lading parser\<close>


















section \<open>Searching\<close>

lemma search_None_iff:
  "search p txt = None \<longleftrightarrow> (\<forall>pre rest. txt = pre @ rest \<longrightarrow> pmatch p (rev pre, rest) = [])"
  using search_from_None[of p "[]" "txt"] by (simp add: search_def)

lemma search_Some_first:
  assumes "search p txt = Some m"
  shows "\<exists>pre rest. txt = pre @ rest \<and> m \<in> set (pmatch p (rev pre, rest)) \<and>
           (\<forall>pre' rest'. txt = pre' @ rest' \<and> pmatch p (rev pre', rest') \<noteq> [] \<longrightarrow>
              length pre \<le> length pre')"
proof -
  from assms have "search_from p [] txt = Some m"
    by (simp add: search_def)
  from search_from_Some[OF this] obtain s rest where s: "txt = s @ rest"
    "pmatch p (rev s, rest) \<noteq> []" "m = hd (pmatch p (rev s, rest))"
    "\<forall>s' rest'. txt = s' @ rest' \<and> length s' < length s \<longrightarrow> pmatch p (rev s', rest') = []"
    by auto
  from s(2,3) have "m \<in> set (pmatch p (rev s, rest))"
    by simp
  moreover have "\<forall>pre' rest'. txt = pre' @ rest' \<and> pmatch p (rev pre', rest') \<noteq> [] \<longrightarrow>
      length s \<le> length pre'"
  proof (intro allI impI)
    fix pre' rest'
    assume a: "txt = pre' @ rest' \<and> pmatch p (rev pre', rest') \<noteq> []"
    show "length s \<le> length pre'"
    proof (rule ccontr)
      assume "\<not> length s \<le> length pre'"
      then have "length pre' < length s"
        by simp
      with s(4) a show False
        by blast
    qed
  qed
  ultimately show ?thesis
    using s(1) by blast
qed

lemma search_finds:
  assumes "txt = pre @ rest" "pmatch p (rev pre, rest) \<noteq> []"
  shows "\<exists>pre' rest' m. txt = pre' @ rest' \<and> length pre' \<le> length pre \<and>
           search p txt = Some m \<and> m \<in> set (pmatch p (rev pre', rest'))"
proof (cases "search p txt")
  case None
  with assms show ?thesis
    unfolding search_None_iff by blast
next
  case (Some m)
  from search_Some_first[OF Some] assms Some show ?thesis
    by blast
qed

lemma plain_group0:
  "m \<in> set (pmatch (plain r) c) \<Longrightarrow> m_group0 m = m_group1 m"
proof -
  assume a: "m \<in> set (pmatch (plain r) c)"
  obtain bef xs where c: "c = (bef, xs)"
    by (cases c)
  from a obtain s rest where "xs = s @ rest"
    "m = \<lparr>m_start = (bef, xs), m_end = (rev s @ bef, rest), m_group1 = s\<rparr>"
    unfolding c pmatch_plain_iff by blast
  then show ?thesis
    by (simp add: m_group0_def between_def c_pos_def)
qed

section \<open>The customer order number\<close>

lemma digit_is_word: "is_digit db c \<Longrightarrow> is_word db c"
  by (auto simp: is_digit_def is_word_def split: if_splits)

lemma order_shape_parts:
  "order_shape db t \<longleftrightarrow>
   (\<exists>d1 d2. t = ustr ''CE-'' @ d1 @ ustr ''-'' @ d2 \<and> length d1 = 4 \<and> length d2 = 2 \<and>
      list_all (is_digit db) d1 \<and> list_all (is_digit db) d2)"
proof
  assume o: "order_shape db t"
  have 1: "drop 3 t = take 4 (drop 3 t) @ drop 7 t"
    using append_take_drop_id[of 4 "drop 3 t"] by simp
  have 2: "drop 7 t = take 1 (drop 7 t) @ drop 8 t"
    using append_take_drop_id[of 1 "drop 7 t"] by simp
  have "t = take 3 t @ drop 3 t"
    by simp
  with 1 2 have "t = take 3 t @ take 4 (drop 3 t) @ take 1 (drop 7 t) @ drop 8 t"
    by metis
  with o show "\<exists>d1 d2. t = ustr ''CE-'' @ d1 @ ustr ''-'' @ d2 \<and> length d1 = 4 \<and> length d2 = 2 \<and>
      list_all (is_digit db) d1 \<and> list_all (is_digit db) d2"
    unfolding order_shape_def
    by (intro exI[of _ "take 4 (drop 3 t)"] exI[of _ "drop 8 t"]) auto
next
  assume "\<exists>d1 d2. t = ustr ''CE-'' @ d1 @ ustr ''-'' @ d2 \<and> length d1 = 4 \<and> length d2 = 2 \<and>
      list_all (is_digit db) d1 \<and> list_all (is_digit db) d2"
  then show "order_shape db t"
    by (auto simp: order_shape_def ustr_def)
qed


lemma at_wordb_start:
  assumes "s \<noteq> []" "w (hd s)"
  shows "at_wordb w (rev pre, s @ post) \<longleftrightarrow> pre = [] \<or> \<not> w (last pre)"
proof -
  from assms obtain x xs where "s = x # xs" "w x"
    by (cases s) auto
  then show ?thesis
    by (cases pre rule: rev_cases) (auto simp: at_wordb_def)
qed

lemma at_wordb_end:
  assumes "s \<noteq> []" "w (last s)"
  shows "at_wordb w (rev s @ bef, post) \<longleftrightarrow> post = [] \<or> \<not> w (hd post)"
proof -
  from assms obtain x xs where "s = xs @ [x]" "w x"
    by (cases s rule: rev_cases) auto
  then show ?thesis
    by (cases post) (auto simp: at_wordb_def)
qed

lemma rm_seqs_ConsI:
  "rm r bef s1 (s2 @ rest) \<Longrightarrow> rm (seqs rs) (rev s1 @ bef) s2 rest \<Longrightarrow>
   rm (seqs (r # rs)) bef (s1 @ s2) rest"
  unfolding rm_seqs_Cons by blast

lemma rm_seqs_Cons0:
  "rm r bef [] (s @ rest) \<Longrightarrow> rm (seqs rs) bef s rest \<Longrightarrow> rm (seqs (r # rs)) bef s rest"
  using rm_seqs_ConsI[of r bef "[]" s rest rs] by simp

lemma rm_seqs_last:
  "rm r bef s rest \<Longrightarrow> rm (seqs rs) (rev s @ bef) [] rest \<Longrightarrow> rm (seqs (r # rs)) bef s rest"
  using rm_seqs_ConsI[of r bef s "[]" rest rs] by simp

lemma rm_order_iff:
  "rm (re_order db) bef s rest \<longleftrightarrow>
   order_shape db s \<and> at_wordb (is_word db) (bef, s @ rest) \<and>
   at_wordb (is_word db) (rev s @ bef, rest)"
proof
  assume "rm (re_order db) bef s rest"
  then have "(\<exists>d1 d2. s = ustr ''CE-'' @ d1 @ ustr ''-'' @ d2 \<and> length d1 = 4 \<and> length d2 = 2 \<and>
      list_all (is_digit db) d1 \<and> list_all (is_digit db) d2) \<and>
      at_wordb (is_word db) (bef, s @ rest) \<and> at_wordb (is_word db) (rev s @ bef, rest)"
    by (fastforce simp: re_order_def rm_seqs_Cons rm_seqs_Nil rm_Wordb rm_Rep rm_lit)
  then show "order_shape db s \<and> at_wordb (is_word db) (bef, s @ rest) \<and>
      at_wordb (is_word db) (rev s @ bef, rest)"
    unfolding order_shape_parts .
next
  assume a: "order_shape db s \<and> at_wordb (is_word db) (bef, s @ rest) \<and>
      at_wordb (is_word db) (rev s @ bef, rest)"
  then obtain d1 d2 where d: "s = ustr ''CE-'' @ d1 @ ustr ''-'' @ d2" "length d1 = 4" "length d2 = 2"
    "list_all (is_digit db) d1" "list_all (is_digit db) d2"
    unfolding order_shape_parts by blast
  from a have b1: "at_wordb (is_word db) (bef, ustr ''CE-'' @ d1 @ ustr ''-'' @ d2 @ rest)"
    and b2: "at_wordb (is_word db) (rev d2 @ rev (ustr ''-'') @ rev d1 @ rev (ustr ''CE-'') @ bef, rest)"
    unfolding d(1) by simp_all
  show "rm (re_order db) bef s rest"
    unfolding re_order_def d(1)
    apply (rule rm_seqs_Cons0)
     apply (simp add: rm_Wordb b1)
    apply (rule rm_seqs_ConsI)
     apply (simp add: rm_lit)
    apply (rule rm_seqs_ConsI)
     apply (simp add: rm_Rep d)
    apply (rule rm_seqs_ConsI)
     apply (simp add: rm_lit)
    apply (rule rm_seqs_last)
     apply (simp add: rm_Rep d)
    apply (rule rm_seqs_Cons0)
     apply (simp add: rm_Wordb b2)
    apply (simp add: rm_seqs_Nil)
    done
qed

lemma order_shape_ends:
  assumes "order_shape db t"
  shows "t \<noteq> []" "is_word db (hd t)" "is_word db (last t)"
proof -
  from assms obtain d1 d2 where t: "t = ustr ''CE-'' @ d1 @ ustr ''-'' @ d2" "length d2 = 2"
    "list_all (is_digit db) d2"
    unfolding order_shape_parts by blast
  show "t \<noteq> []" "is_word db (hd t)"
    unfolding t(1) by (simp_all add: ustr_def is_word_def is_AZ_def)
  from t(2) have "d2 \<noteq> []"
    by auto
  then have "last t = last d2" "last d2 \<in> set d2"
    unfolding t(1) by simp_all
  with t(3) show "is_word db (last t)"
    by (simp add: list_all_iff digit_is_word)
qed

lemma order_match_iff:
  "rm (re_order db) (rev pre) t post \<longleftrightarrow> order_shape db t \<and> word_free db pre post"
proof (cases "order_shape db t")
  case True
  from order_shape_ends[OF True] show ?thesis
    unfolding rm_order_iff word_free_def
    using at_wordb_start[of t "is_word db" pre post] at_wordb_end[of t "is_word db" "rev pre" post] True
    by simp
next
  case False
  then show ?thesis
    by (simp add: rm_order_iff)
qed

text \<open>
  C2 (counterexample). The text holds a substring of the canonical shape, glued to a letter
  before it; the pattern asks for a word boundary there and the parser returns the empty
  value.
\<close>

theorem order_needs_word_boundary:
  "text_order_glued = ustr ''X'' @ ustr ''CE-1234-56'' @ [] \<and>
   order_shape ucd_ascii (ustr ''CE-1234-56'') \<and>
   parse_customer_order ucd_ascii text_order_glued = Inr []"
proof -
  have 1: "text_order_glued = ustr ''X'' @ ustr ''CE-1234-56'' @ []"
    unfolding text_order_glued_def by code_simp
  have 2: "order_shape ucd_ascii (ustr ''CE-1234-56'')"
    by code_simp
  have 3: "parse_customer_order ucd_ascii text_order_glued = Inr []"
    unfolding text_order_glued_def by code_simp
  from 1 2 3 show ?thesis
    by simp
qed

text \<open>
  C2 (amended). If the text holds a substring of the canonical shape that has no word
  character directly before or behind it, the order-number parser returns such a substring
  verbatim: one that starts at or before the given one, hence the first of them.
\<close>

theorem parse_customer_order_first:
  assumes "txt = pre @ t @ post" and "order_shape db t" and "word_free db pre post"
  shows "\<exists>pre' t' post'. txt = pre' @ t' @ post' \<and> order_shape db t' \<and> word_free db pre' post' \<and>
           length pre' \<le> length pre \<and> parse_customer_order db txt = Inr t'"
proof -
  let ?p = "plain (re_order db)"
  from assms(2,3) have "rm (re_order db) (rev pre) t post"
    by (simp add: order_match_iff)
  then have "\<lparr>m_start = (rev pre, t @ post), m_end = (rev t @ rev pre, post), m_group1 = t\<rparr>
      \<in> set (pmatch ?p (rev pre, t @ post))"
    unfolding pmatch_plain_iff by blast
  then have "pmatch ?p (rev pre, t @ post) \<noteq> []"
    by auto
  from search_finds[OF assms(1) this] obtain pre' rest' m where m: "txt = pre' @ rest'"
    "length pre' \<le> length pre" "search ?p txt = Some m" "m \<in> set (pmatch ?p (rev pre', rest'))"
    by blast
  from m(4) obtain t' post' where t': "rest' = t' @ post'" "rm (re_order db) (rev pre') t' post'"
    "m_group1 m = t'"
    unfolding pmatch_plain_iff by auto
  from plain_group0[OF m(4)] t'(3) have "m_group0 m = t'"
    by simp
  with m(3) have "parse_customer_order db txt = Inr t'"
    by (simp add: parse_customer_order_def)
  with m(1,2) t'(1,2) show ?thesis
    unfolding order_match_iff by blast
qed

theorem parse_customer_order_first_witness:
  "text_order = ustr ''a '' @ ustr ''CE-1234-56'' @ ustr '' b'' \<and>
   order_shape ucd_ascii (ustr ''CE-1234-56'') \<and>
   word_free ucd_ascii (ustr ''a '') (ustr '' b'') \<and>
   (\<exists>pre' t' post'. text_order = pre' @ t' @ post' \<and> length pre' \<le> length (ustr ''a '') \<and>
      parse_customer_order ucd_ascii text_order = Inr t') \<and>
   parse_customer_order ucd_ascii text_order = Inr (ustr ''CE-1234-56'')"
proof -
  have 1: "text_order = ustr ''a '' @ ustr ''CE-1234-56'' @ ustr '' b''"
    unfolding text_order_def by code_simp
  have 2: "order_shape ucd_ascii (ustr ''CE-1234-56'')"
    by code_simp
  have 3: "word_free ucd_ascii (ustr ''a '') (ustr '' b'')"
    by code_simp
  have 4: "parse_customer_order ucd_ascii text_order = Inr (ustr ''CE-1234-56'')"
    unfolding text_order_def by code_simp
  from parse_customer_order_first[OF 1 2 3] 1 2 3 4 show ?thesis
    by blast
qed

section \<open>The invoice number\<close>

lemma digits_end_word:
  assumes "list_all (is_digit db) ds" "ds \<noteq> []"
  shows "is_word db (last ds)"
proof -
  from assms(2) have "last ds \<in> set ds"
    by (rule last_in_set)
  with assms(1) show ?thesis
    by (simp add: list_all_iff digit_is_word)
qed

lemma pmatchI:
  assumes "rm pre bef s1 (s2 @ s3 @ rest)" "rm grp (rev s1 @ bef) s2 (s3 @ rest)"
    "rm post (rev s2 @ rev s1 @ bef) s3 rest"
  shows "pmatch (Pat pre grp post) (bef, s1 @ s2 @ s3 @ rest) \<noteq> []"
proof -
  let ?m = "\<lparr>m_start = (bef, s1 @ s2 @ s3 @ rest), m_end = (rev s3 @ rev s2 @ rev s1 @ bef, rest),
    m_group1 = s2\<rparr>"
  have "\<exists>t1 t2 t3 r. s1 @ s2 @ s3 @ rest = t1 @ t2 @ t3 @ r \<and> rm pre bef t1 (t2 @ t3 @ r) \<and>
      rm grp (rev t1 @ bef) t2 (t3 @ r) \<and> rm post (rev t2 @ rev t1 @ bef) t3 r \<and>
      ?m = \<lparr>m_start = (bef, s1 @ s2 @ s3 @ rest), m_end = (rev t3 @ rev t2 @ rev t1 @ bef, r),
        m_group1 = t2\<rparr>"
    using assms by (intro exI[of _ s1] exI[of _ s2] exI[of _ s3] exI[of _ rest]) simp
  then have "?m \<in> set (pmatch (Pat pre grp post) (bef, s1 @ s2 @ s3 @ rest))"
    by (simp only: pmatch_iff)
  then show ?thesis
    by (metis list.set(1) empty_iff)
qed

lemma rm_seqs_ConsE:
  assumes "rm (seqs (r # rs)) bef s rest"
  obtains s1 s2 where "s = s1 @ s2" "rm r bef s1 (s2 @ rest)" "rm (seqs rs) (rev s1 @ bef) s2 rest"
  using assms unfolding rm_seqs_Cons by blast

lemma invoice_lead_D:
  assumes "rm (seqs [Alt Bol nl, spaces0, lit_ci ''Invoice'', spaces1]) bef s1 rest"
  shows "\<exists>a ws inv sp. s1 = a @ ws @ inv @ sp \<and> (a = [] \<and> bef = [] \<or> a = [10]) \<and>
           list_all is_space ws \<and> list_all2 ci_chr (ustr ''Invoice'') inv \<and> sp \<noteq> [] \<and>
           list_all is_space sp"
proof -
  from assms obtain a t1 where 1: "s1 = a @ t1" "rm (Alt Bol nl) bef a (t1 @ rest)"
    "rm (seqs [spaces0, lit_ci ''Invoice'', spaces1]) (rev a @ bef) t1 rest"
    by (rule rm_seqs_ConsE)
  from 1(3) obtain ws t2 where 2: "t1 = ws @ t2" "rm spaces0 (rev a @ bef) ws (t2 @ rest)"
    "rm (seqs [lit_ci ''Invoice'', spaces1]) (rev ws @ rev a @ bef) t2 rest"
    by (rule rm_seqs_ConsE)
  from 2(3) obtain inv t3 where 3: "t2 = inv @ t3"
    "rm (lit_ci ''Invoice'') (rev ws @ rev a @ bef) inv (t3 @ rest)"
    "rm (seqs [spaces1]) (rev inv @ rev ws @ rev a @ bef) t3 rest"
    by (rule rm_seqs_ConsE)
  from 3(3) obtain sp t4 where 4: "t3 = sp @ t4"
    "rm spaces1 (rev inv @ rev ws @ rev a @ bef) sp (t4 @ rest)"
    "rm (seqs []) (rev sp @ rev inv @ rev ws @ rev a @ bef) t4 rest"
    by (rule rm_seqs_ConsE)
  from 4(3) have t4: "t4 = []"
    by (simp add: rm_seqs_Nil)
  from 1(2) have a: "a = [] \<and> bef = [] \<or> a = [10]"
    by (auto simp: rm_Alt rm_Bol nl_def rm_Chr)
  from 2(2) have ws: "list_all is_space ws"
    by (simp add: spaces0_def rm_Rep)
  from 3(2) have inv: "list_all2 ci_chr (ustr ''Invoice'') inv"
    by (simp add: rm_lit_ci)
  from 4(2) have sp: "list_all is_space sp" "sp \<noteq> []"
    by (auto simp: spaces1_def rm_Rep)
  have "s1 = a @ ws @ inv @ sp"
    using 1(1) 2(1) 3(1) 4(1) t4 by simp
  with a ws inv sp show ?thesis
    by blast
qed

lemma invoice_match_D:
  assumes "m \<in> set (pmatch (pat_invoice_line db) (bef, xs))"
  shows "\<exists>a lead ds post. xs = a @ lead @ ds @ post \<and> (a = [] \<and> bef = [] \<or> a = [10]) \<and>
           invoice_line db [] lead ds post \<and> m_group1 m = ds"
proof -
  from assms obtain s1 ds s3 rest where 1: "xs = s1 @ ds @ s3 @ rest"
    "rm (seqs [Alt Bol nl, spaces0, lit_ci ''Invoice'', spaces1]) bef s1 (ds @ s3 @ rest)"
    "rm (Rep (is_digit db) 6 None True) (rev s1 @ bef) ds (s3 @ rest)"
    "rm (Wordb (is_word db)) (rev ds @ rev s1 @ bef) s3 rest"
    "m = \<lparr>m_start = (bef, xs), m_end = (rev s3 @ rev ds @ rev s1 @ bef, rest), m_group1 = ds\<rparr>"
    unfolding pat_invoice_line_def pmatch_iff by blast
  from invoice_lead_D[OF 1(2)] obtain a ws inv sp where 2: "s1 = a @ ws @ inv @ sp"
    "a = [] \<and> bef = [] \<or> a = [10]"
    "list_all is_space ws" "list_all2 ci_chr (ustr ''Invoice'') inv" "sp \<noteq> []" "list_all is_space sp"
    by blast
  from 1(3) have 3: "6 \<le> length ds" "list_all (is_digit db) ds"
    by (simp_all add: rm_Rep)
  then have "ds \<noteq> []"
    by auto
  with 3 have "ds \<noteq> []" "is_word db (last ds)"
    by (simp_all add: digits_end_word)
  from at_wordb_end[of ds "is_word db" "rev s1 @ bef" rest] this 1(4) have 4: "s3 = []" "rest = [] \<or> \<not> is_word db (hd rest)"
    by (simp_all add: rm_Wordb)
  have "invoice_line db [] (ws @ inv @ sp) ds rest"
    unfolding invoice_line_def using 2(3-6) 3 4(2) by blast
  moreover have "xs = a @ (ws @ inv @ sp) @ ds @ rest"
    using 1(1) 2(1) 4(1) by simp
  moreover have "m_group1 m = ds"
    unfolding 1(5) by simp
  ultimately show ?thesis
    using 2(2) by blast
qed

lemma invoice_match_I:
  assumes "invoice_line db [] lead ds post" "a = [] \<and> bef = [] \<or> a = [10]"
  shows "pmatch (pat_invoice_line db) (bef, a @ lead @ ds @ post) \<noteq> []"
proof -
  from assms(1) obtain ws inv sp where l: "lead = ws @ inv @ sp" "list_all is_space ws"
    "list_all2 ci_chr (ustr ''Invoice'') inv" "sp \<noteq> []" "list_all is_space sp"
    and d: "6 \<le> length ds" "list_all (is_digit db) ds" "post = [] \<or> \<not> is_word db (hd post)"
    unfolding invoice_line_def by blast
  have sp: "Suc 0 \<le> length sp"
    using l(4) by (cases sp) auto
  have 0: "rm (Alt Bol nl) bef a (ws @ inv @ sp @ ds @ post)"
    using assms(2) by (auto simp: rm_Alt rm_Bol nl_def rm_Chr)
  have 1: "rm (seqs [Alt Bol nl, spaces0, lit_ci ''Invoice'', spaces1]) bef (a @ ws @ inv @ sp)
      (ds @ [] @ post)"
    apply (rule rm_seqs_ConsI)
     apply (simp add: 0)
    apply (rule rm_seqs_ConsI)
     apply (simp add: spaces0_def rm_Rep l)
    apply (rule rm_seqs_ConsI)
     apply (simp add: rm_lit_ci l)
    apply (rule rm_seqs_last)
     apply (simp add: spaces1_def rm_Rep l sp)
    apply (simp add: rm_seqs_Nil)
    done
  have 2: "rm (Rep (is_digit db) 6 None True) (rev (a @ ws @ inv @ sp) @ bef) ds ([] @ post)"
    using d by (simp add: rm_Rep)
  from d(1) have "ds \<noteq> []"
    by auto
  with d(2) have "ds \<noteq> []" "is_word db (last ds)"
    by (simp_all add: digits_end_word)
  from at_wordb_end[of ds "is_word db" "rev (a @ ws @ inv @ sp) @ bef" post] this d(3)
  have 3: "rm (Wordb (is_word db)) (rev ds @ rev (a @ ws @ inv @ sp) @ bef) [] post"
    by (simp add: rm_Wordb)
  from pmatchI[OF 1 2 3] l(1) show ?thesis
    by (simp add: pat_invoice_line_def)
qed


lemma invoice_line_head:
  "invoice_line db head lead ds post \<longleftrightarrow>
   (head = [] \<or> last head = 10) \<and> invoice_line db [] lead ds post"
  by (simp add: invoice_line_def)

lemma invoice_line_newline:
  assumes "invoice_line db [] lead ds post"
  shows "invoice_line db [] (10 # lead) ds post"
proof -
  from assms obtain ws inv sp where l: "lead = ws @ inv @ sp" "list_all is_space ws"
    "list_all2 ci_chr (ustr ''Invoice'') inv" "sp \<noteq> []" "list_all is_space sp"
    and d: "6 \<le> length ds" "list_all (is_digit db) ds" "post = [] \<or> \<not> is_word db (hd post)"
    unfolding invoice_line_def by blast
  have "10 # lead = (10 # ws) @ inv @ sp" "list_all is_space (10 # ws)"
    using l(1,2) by (simp_all add: is_space_def)
  with l(3-5) d show ?thesis
    unfolding invoice_line_def by blast
qed

text \<open>
  C8 (counterexample). A line that begins with \<^verbatim>\<open>Invoice\<close>, white space and a run of
  six digits, the run glued to letters: both patterns ask for a word boundary behind the
  digits and the parser returns the empty value.
\<close>

theorem invoice_needs_word_boundary:
  "text_invoice_glued = ustr ''Invoice'' @ ustr '' '' @ ustr ''123456'' @ ustr ''abc'' \<and>
   list_all (is_digit ucd_ascii) (ustr ''123456'') \<and> \<not> is_digit ucd_ascii (hd (ustr ''abc'')) \<and>
   parse_invoice_number ucd_ascii text_invoice_glued = []"
proof -
  have 1: "text_invoice_glued = ustr ''Invoice'' @ ustr '' '' @ ustr ''123456'' @ ustr ''abc''"
    unfolding text_invoice_glued_def by code_simp
  have 2: "list_all (is_digit ucd_ascii) (ustr ''123456'')" "\<not> is_digit ucd_ascii (hd (ustr ''abc''))"
    by code_simp+
  have 3: "parse_invoice_number ucd_ascii text_invoice_glued = []"
    unfolding text_invoice_glued_def by code_simp
  from 1 2 3 show ?thesis
    by simp
qed

text \<open>
  C8 (amended). If the text holds an invoice line (optional white space, \<^verbatim>\<open>Invoice\<close> in
  any case, white space, at least six digits, no word character behind them), the parser
  returns the digit run of such a line: of one that starts at or before the given one,
  hence of the first.
\<close>

theorem parse_invoice_number_first:
  assumes "txt = head @ lead @ ds @ post" and "invoice_line db head lead ds post"
  shows "\<exists>head' lead' ds' post'. txt = head' @ lead' @ ds' @ post' \<and>
           invoice_line db head' lead' ds' post' \<and> length head' \<le> length head \<and>
           parse_invoice_number db txt = ds'"
proof -
  from assms(2) have body: "invoice_line db [] lead ds post" and hd: "head = [] \<or> last head = 10"
    unfolding invoice_line_head[of db head] by simp_all
  obtain p0 a where pa: "head = p0 @ a" "a = [] \<and> rev p0 = [] \<or> a = [10]"
  proof (cases "head = []")
    case True
    then show ?thesis
      using that[of "[]" "[]"] by simp
  next
    case False
    with hd have "head = butlast head @ [10]"
      by (metis append_butlast_last_id)
    then show ?thesis
      using that[of "butlast head" "[10]"] by simp
  qed
  from invoice_match_I[OF body pa(2)]
  have ne: "pmatch (pat_invoice_line db) (rev p0, a @ lead @ ds @ post) \<noteq> []" .
  have "txt = p0 @ (a @ lead @ ds @ post)"
    using assms(1) pa(1) by simp
  from search_finds[OF this ne] obtain pre' rest' m where m: "txt = pre' @ rest'"
    "length pre' \<le> length p0" "search (pat_invoice_line db) txt = Some m"
    "m \<in> set (pmatch (pat_invoice_line db) (rev pre', rest'))"
    by blast
  from invoice_match_D[OF m(4)] obtain a' lead' ds' post' where d: "rest' = a' @ lead' @ ds' @ post'"
    "a' = [] \<and> rev pre' = [] \<or> a' = [10]" "invoice_line db [] lead' ds' post'" "m_group1 m = ds'"
    by blast
  from m(3) d(4) have res: "parse_invoice_number db txt = ds'"
    by (simp add: parse_invoice_number_def)
  show ?thesis
  proof (cases "a' = []")
    case True
    with d(2) have "pre' = []"
      by simp
    with True m(1) d(1) have "txt = [] @ lead' @ ds' @ post'"
      by simp
    with d(3) res show ?thesis
      by (metis list.size(3) le0)
  next
    case False
    with d(2) have a': "a' = [10]"
      by simp
    show ?thesis
    proof (cases "a = []")
      case True
      with pa have "p0 = []" "head = []"
        by simp_all
      with m(2) have "pre' = []"
        by simp
      with m(1) d(1) a' have "txt = [] @ (10 # lead') @ ds' @ post'"
        by simp
      with invoice_line_newline[OF d(3)] res show ?thesis
        by (metis list.size(3) le0)
    next
      case False
      with pa(2) have "a = [10]"
        by simp
      with pa(1) m(2) have "length (pre' @ [10]) \<le> length head"
        by simp
      moreover have "txt = (pre' @ [10]) @ lead' @ ds' @ post'"
        using m(1) d(1) a' by simp
      moreover have "invoice_line db (pre' @ [10]) lead' ds' post'"
        using d(3) unfolding invoice_line_head[of db "pre' @ [10]"] by simp
      ultimately show ?thesis
        using res by blast
    qed
  qed
qed

text \<open>The scenario of the specification: the line alone is the text.\<close>

theorem parse_invoice_number_first_witness:
  "text_invoice = [] @ ustr ''Invoice '' @ ustr ''000123456'' @ [] \<and>
   invoice_line ucd_ascii [] (ustr ''Invoice '') (ustr ''000123456'') [] \<and>
   (\<exists>head' lead' ds' post'. text_invoice = head' @ lead' @ ds' @ post' \<and>
      invoice_line ucd_ascii head' lead' ds' post' \<and>
      parse_invoice_number ucd_ascii text_invoice = ds') \<and>
   parse_invoice_number ucd_ascii text_invoice = ustr ''000123456''"
proof -
  have 1: "text_invoice = [] @ ustr ''Invoice '' @ ustr ''000123456'' @ []"
    unfolding text_invoice_def by code_simp
  have "ustr ''Invoice '' = [] @ ustr ''Invoice'' @ ustr '' ''" "list_all is_space []"
    "list_all2 ci_chr (ustr ''Invoice'') (ustr ''Invoice'')" "ustr '' '' \<noteq> []"
    "list_all is_space (ustr '' '')" "6 \<le> length (ustr ''000123456'')"
    "list_all (is_digit ucd_ascii) (ustr ''000123456'')"
    by code_simp+
  then have 2: "invoice_line ucd_ascii [] (ustr ''Invoice '') (ustr ''000123456'') []"
    unfolding invoice_line_def by blast
  have 3: "parse_invoice_number ucd_ascii text_invoice = ustr ''000123456''"
    unfolding text_invoice_def by code_simp
  from parse_invoice_number_first[OF 1 2] 1 2 3 show ?thesis
    by blast
qed

section \<open>The product\<close>

lemma list_all_ne: "list_all (\<lambda>c. c \<noteq> x) xs \<longleftrightarrow> x \<notin> set xs"
  by (auto simp: list_all_iff)

lemma rm_product_iff:
  "rm (seqs [lit_ci ''AGILITY'', Rep (\<lambda>c. c \<noteq> 10) 0 (Some 120) False, lit_ci ''LDPE'']) bef s rest
   \<longleftrightarrow> product_span s"
proof
  assume "rm (seqs [lit_ci ''AGILITY'', Rep (\<lambda>c. c \<noteq> 10) 0 (Some 120) False, lit_ci ''LDPE'']) bef s rest"
  then obtain a t1 where 1: "s = a @ t1" "rm (lit_ci ''AGILITY'') bef a (t1 @ rest)"
    "rm (seqs [Rep (\<lambda>c. c \<noteq> 10) 0 (Some 120) False, lit_ci ''LDPE'']) (rev a @ bef) t1 rest"
    by (rule rm_seqs_ConsE)
  from 1(3) obtain mid t2 where 2: "t1 = mid @ t2"
    "rm (Rep (\<lambda>c. c \<noteq> 10) 0 (Some 120) False) (rev a @ bef) mid (t2 @ rest)"
    "rm (seqs [lit_ci ''LDPE'']) (rev mid @ rev a @ bef) t2 rest"
    by (rule rm_seqs_ConsE)
  from 2(3) obtain l t3 where 3: "t2 = l @ t3"
    "rm (lit_ci ''LDPE'') (rev mid @ rev a @ bef) l (t3 @ rest)"
    "rm (seqs []) (rev l @ rev mid @ rev a @ bef) t3 rest"
    by (rule rm_seqs_ConsE)
  from 3(3) have "t3 = []"
    by (simp add: rm_seqs_Nil)
  with 1(1) 2(1) 3(1) have "s = a @ mid @ l"
    by simp
  moreover from 1(2) have "list_all2 ci_chr (ustr ''AGILITY'') a"
    by (simp add: rm_lit_ci)
  moreover from 2(2) have "length mid \<le> 120" "10 \<notin> set mid"
    by (simp_all add: rm_Rep list_all_ne)
  moreover from 3(2) have "list_all2 ci_chr (ustr ''LDPE'') l"
    by (simp add: rm_lit_ci)
  ultimately show "product_span s"
    unfolding product_span_def by blast
next
  assume "product_span s"
  then obtain a mid l where p: "s = a @ mid @ l" "list_all2 ci_chr (ustr ''AGILITY'') a"
    "length mid \<le> 120" "10 \<notin> set mid" "list_all2 ci_chr (ustr ''LDPE'') l"
    unfolding product_span_def by blast
  show "rm (seqs [lit_ci ''AGILITY'', Rep (\<lambda>c. c \<noteq> 10) 0 (Some 120) False, lit_ci ''LDPE'']) bef s rest"
    unfolding p(1)
    apply (rule rm_seqs_ConsI)
     apply (simp add: rm_lit_ci p)
    apply (rule rm_seqs_ConsI)
     apply (simp add: rm_Rep list_all_ne p)
    apply (rule rm_seqs_last)
     apply (simp add: rm_lit_ci p)
    apply (simp add: rm_seqs_Nil)
    done
qed

lemma product_match_iff:
  "m \<in> set (pmatch pat_product (rev pre, rest)) \<longleftrightarrow>
   (\<exists>seg post. rest = seg @ post \<and> product_span seg \<and>
      m = \<lparr>m_start = (rev pre, rest), m_end = (rev seg @ rev pre, post), m_group1 = seg\<rparr>)"
  unfolding pat_product_def pmatch_plain_iff rm_product_iff by blast

lemma product_no_span:
  "search pat_product txt = None \<longleftrightarrow>
   \<not> (\<exists>pre seg post. txt = pre @ seg @ post \<and> product_span seg)"
proof -
  have "pmatch pat_product (rev pre, rest) = [] \<longleftrightarrow>
      \<not> (\<exists>seg post. rest = seg @ post \<and> product_span seg)" for pre rest
  proof -
    have "pmatch pat_product (rev pre, rest) = [] \<longleftrightarrow>
        (\<forall>m. m \<notin> set (pmatch pat_product (rev pre, rest)))"
      by (cases "pmatch pat_product (rev pre, rest)") auto
    then show ?thesis
      unfolding product_match_iff by blast
  qed
  then show ?thesis
    unfolding search_None_iff by blast
qed

text \<open>
  C5 (counterexample). \<^verbatim>\<open>AGILITY\<close> and \<^verbatim>\<open>LDPE\<close> with one character between them, a
  line break: the pattern does not let the seg cross a line and the parser returns the
  empty value.
\<close>

theorem product_span_one_line:
  "text_product_broken = ustr ''AGILITY'' @ [10] @ ustr ''LDPE'' \<and>
   list_all2 ci_chr (ustr ''AGILITY'') (ustr ''AGILITY'') \<and>
   list_all2 ci_chr (ustr ''LDPE'') (ustr ''LDPE'') \<and> length [10 :: int] \<le> 120 \<and>
   parse_product ucd_ascii text_product_broken = []"
proof -
  have 1: "text_product_broken = ustr ''AGILITY'' @ [10] @ ustr ''LDPE''"
    unfolding text_product_broken_def by simp
  have 2: "list_all2 ci_chr (ustr ''AGILITY'') (ustr ''AGILITY'')"
    "list_all2 ci_chr (ustr ''LDPE'') (ustr ''LDPE'')"
    by code_simp+
  have 3: "parse_product ucd_ascii text_product_broken = []"
    unfolding text_product_broken_def by code_simp
  from 1 2 3 show ?thesis
    by simp
qed

text \<open>
  C5 (amended). If the text holds a product span (\<^verbatim>\<open>AGILITY\<close>, at most 120 characters
  without a line break, \<^verbatim>\<open>LDPE\<close>, in any case), the parser returns a seg of the text
  that starts where the leftmost one starts, with the trade mark sign removed, white space
  collapsed and in upper case; if the text holds none, it returns the empty value.
\<close>

theorem parse_product_span:
  "if \<exists>pre seg post. txt = pre @ seg @ post \<and> product_span seg
   then \<exists>pre' seg' post'. txt = pre' @ seg' @ post' \<and> product_span seg' \<and>
          (\<forall>pre seg post. txt = pre @ seg @ post \<and> product_span seg \<longrightarrow>
             length pre' \<le> length pre) \<and>
          parse_product db txt = product_clean db seg'
   else parse_product db txt = []"
proof (cases "\<exists>pre seg post. txt = pre @ seg @ post \<and> product_span seg")
  case False
  then have "search pat_product txt = None"
    by (simp only: product_no_span not_False_eq_True)
  then have "parse_product db txt = []"
    by (simp add: parse_product_def)
  then show ?thesis
    unfolding if_not_P[OF False] .
next
  case True
  then have "search pat_product txt \<noteq> None"
    by (simp only: product_no_span not_not)
  then obtain m where m: "search pat_product txt = Some m"
    by blast
  from search_Some_first[OF m] obtain pre' rest' where f: "txt = pre' @ rest'"
    "m \<in> set (pmatch pat_product (rev pre', rest'))"
    "\<forall>pre rest. txt = pre @ rest \<and> pmatch pat_product (rev pre, rest) \<noteq> [] \<longrightarrow>
       length pre' \<le> length pre"
    by blast
  from f(2) obtain seg' post' where s: "rest' = seg' @ post'" "product_span seg'"
    "m_group1 m = seg'"
    unfolding product_match_iff by auto
  have "length pre' \<le> length pre" if "txt = pre @ seg @ post \<and> product_span seg" for pre seg post
  proof -
    from that have "\<lparr>m_start = (rev pre, seg @ post), m_end = (rev seg @ rev pre, post),
        m_group1 = seg\<rparr> \<in> set (pmatch pat_product (rev pre, seg @ post))"
      unfolding product_match_iff by blast
    then have "pmatch pat_product (rev pre, seg @ post) \<noteq> []"
      by (metis list.set(1) empty_iff)
    with f(3) that show ?thesis
      by blast
  qed
  moreover have "parse_product db txt = product_clean db seg'"
    using m s(3) by (simp add: parse_product_def)
  moreover have "txt = pre' @ seg' @ post'"
    using f(1) s(1) by simp
  ultimately have "\<exists>pre' seg' post'. txt = pre' @ seg' @ post' \<and> product_span seg' \<and>
      (\<forall>pre seg post. txt = pre @ seg @ post \<and> product_span seg \<longrightarrow> length pre' \<le> length pre) \<and>
      parse_product db txt = product_clean db seg'"
    using s(2) by blast
  then show ?thesis
    unfolding if_P[OF True] .
qed

text \<open>A span with the trade mark sign, mixed case and runs of blanks.\<close>

theorem parse_product_span_witness:
  "(\<exists>pre seg post. text_product = pre @ seg @ post \<and> product_span seg) \<and>
   (\<exists>pre' seg' post'. text_product = pre' @ seg' @ post' \<and> product_span seg' \<and>
      parse_product ucd_ascii text_product = product_clean ucd_ascii seg') \<and>
   parse_product ucd_ascii text_product = ustr ''AGILITY EP 1234 LDPE''"
proof -
  let ?a = "ustr ''Agility''" and ?mid = "[8482] @ ustr ''  EP  1234  ''" and ?l = "ustr ''ldpe''"
  have "list_all2 ci_chr (ustr ''AGILITY'') ?a" "length ?mid \<le> 120" "10 \<notin> set ?mid"
    "list_all2 ci_chr (ustr ''LDPE'') ?l"
    by code_simp+
  then have "product_span (?a @ ?mid @ ?l)"
    unfolding product_span_def by blast
  moreover have "text_product = ustr ''x '' @ (?a @ ?mid @ ?l) @ ustr '' resin LDPE''"
    unfolding text_product_def by code_simp
  ultimately have 1: "\<exists>pre seg post. text_product = pre @ seg @ post \<and> product_span seg"
    by blast
  have 2: "parse_product ucd_ascii text_product = ustr ''AGILITY EP 1234 LDPE''"
    unfolding text_product_def by code_simp
  from parse_product_span[of text_product ucd_ascii]
  have "\<exists>pre' seg' post'. text_product = pre' @ seg' @ post' \<and> product_span seg' \<and>
      (\<forall>pre seg post. text_product = pre @ seg @ post \<and> product_span seg \<longrightarrow>
         length pre' \<le> length pre) \<and>
      parse_product ucd_ascii text_product = product_clean ucd_ascii seg'"
    unfolding if_P[OF 1] .
  with 1 2 show ?thesis
    by blast
qed

end
